theory Spec2Isabelle
  imports Complex_Main "HOL-Library.AList" "HOL-Library.Sublist"
begin

section \<open>Python strings\<close>

text \<open>
  A Python \<open>str\<close> is a sequence of Unicode code points and \<open>len\<close> counts code points,
  so a string is modelled as a list of code points (natural numbers). \<open>str\<close> turns an
  ASCII literal into such a list.
\<close>

type_synonym pystr = "nat list"

definition str :: "string \<Rightarrow> pystr" where
  "str s = map of_char s"

text \<open>
  The characters that \<open>str.strip()\<close> and \<open>str.split()\<close> treat as whitespace
  (\<open>str.isspace\<close>): U+0009..U+000D, U+001C..U+0020, U+0085, U+00A0, U+1680,
  U+2000..U+200A, U+2028, U+2029, U+202F, U+205F and U+3000.
\<close>

definition isspace :: "nat \<Rightarrow> bool" where
  "isspace c \<longleftrightarrow>
     (9 \<le> c \<and> c \<le> 13) \<or> (28 \<le> c \<and> c \<le> 32) \<or> c = 133 \<or> c = 160 \<or> c = 5760 \<or>
     (8192 \<le> c \<and> c \<le> 8202) \<or> c = 8232 \<or> c = 8233 \<or> c = 8239 \<or> c = 8287 \<or> c = 12288"

definition dot :: nat where
  "dot = 46"

definition space :: nat where
  "space = 32"

text \<open>\<open>s.strip()\<close>: leading and trailing whitespace removed.\<close>

definition strip :: "pystr \<Rightarrow> pystr" where
  "strip s = rev (dropWhile isspace (rev (dropWhile isspace s)))"

text \<open>\<open>s.split(sep)\<close> for a one-character separator: \<open>n\<close> separators give \<open>n + 1\<close> pieces.\<close>

fun split_on :: "nat \<Rightarrow> pystr \<Rightarrow> pystr list" where
  "split_on d [] = [[]]"
| "split_on d (c # cs) =
     (if c = d then [] # split_on d cs
      else (let r = split_on d cs in (c # hd r) # tl r))"

text \<open>\<open>s.split()\<close>: the maximal runs of non-whitespace characters, in order.\<close>

function split_ws :: "pystr \<Rightarrow> pystr list" where
  "split_ws s =
     (let w = dropWhile isspace s in
      if w = [] then []
      else takeWhile (\<lambda>c. \<not> isspace c) w # split_ws (dropWhile (\<lambda>c. \<not> isspace c) w))"
  by pat_completeness auto
termination
proof (relation "measure length")
  show "wf (measure length)" by simp
next
  fix s w :: pystr
  assume w: "w = dropWhile isspace s" and ne: "w \<noteq> []"
  have "\<not> isspace (hd w)"
    using w ne hd_dropWhile by metis
  then have "length (dropWhile (\<lambda>c. \<not> isspace c) w) < length w"
    using ne by (cases w) (auto simp: le_imp_less_Suc length_dropWhile_le)
  also have "length w \<le> length s"
    using w by (simp add: length_dropWhile_le)
  finally show "(dropWhile (\<lambda>c. \<not> isspace c) w, s) \<in> measure length" by simp
qed

declare split_ws.simps [simp del]

text \<open>\<open>sep.join(ws)\<close>.\<close>

fun join :: "pystr \<Rightarrow> pystr list \<Rightarrow> pystr" where
  "join sep [] = []"
| "join sep [w] = w"
| "join sep (w # v # ws) = w @ sep @ join sep (v # ws)"

text \<open>\<open>xs[-n:]\<close>: the last \<open>n\<close> elements, or all of them when there are fewer.\<close>

definition last_n :: "nat \<Rightarrow> 'a list \<Rightarrow> 'a list" where
  "last_n n xs = drop (length xs - n) xs"

section \<open>Data model\<close>

text \<open>
  Metadata values are strings (source, filename, directory) or integers (file_size,
  chunk_index). A Python dict keeps insertion order and has distinct keys: it is an
  association list, \<open>{**m, k: v}\<close> is \<open>AList.update k v m\<close>.
\<close>

datatype pyval = PyStr pystr | PyInt int

type_synonym pydict = "(string \<times> pyval) list"

record chunk =
  content :: pystr
  metadata :: pydict

record DocumentIngestor =
  chunk_size :: nat
  chunk_overlap :: nat
  batch_size :: nat

definition init :: DocumentIngestor where
  "init = \<lparr>chunk_size = 1000, chunk_overlap = 200, batch_size = 10\<rparr>"

section \<open>The chunker\<close>

text \<open>The sentence units of a text: the pieces between periods, trimmed, blank ones dropped.\<close>

definition sentences :: "pystr \<Rightarrow> pystr list" where
  "sentences text = map strip (filter (\<lambda>s. strip s \<noteq> []) (split_on dot text))"

text \<open>The overlap seed of a closed buffer: its last 20 words, joined by single spaces.\<close>

definition overlap :: "pystr \<Rightarrow> pystr" where
  "overlap current_chunk = join [space] (last_n 20 (split_ws current_chunk))"

definition mk_chunk :: "pydict \<Rightarrow> chunk list \<Rightarrow> pystr \<Rightarrow> chunk" where
  "mk_chunk md chunks current_chunk =
     \<lparr>content = strip current_chunk,
      metadata = AList.update ''chunk_index'' (PyInt (int (length chunks))) md\<rparr>"

text \<open>
  One iteration of the loop over the sentences. The loop state is
  \<open>(chunks, current_chunk, current_length)\<close>.
\<close>

type_synonym chunker_state = "chunk list \<times> pystr \<times> nat"

fun chunk_step :: "DocumentIngestor \<Rightarrow> pydict \<Rightarrow> chunker_state \<Rightarrow> pystr \<Rightarrow> chunker_state" where
  "chunk_step self md (chunks, current_chunk, current_length) sentence =
     (let sentence_length = length sentence in
      if current_length + sentence_length > chunk_size self \<and> current_chunk \<noteq> [] then
        (let chunks' = chunks @ [mk_chunk md chunks current_chunk];
             current_chunk' = overlap current_chunk @ [dot, space] @ sentence
         in (chunks', current_chunk', length current_chunk'))
      else
        (let current_chunk' =
               current_chunk @ (if current_chunk \<noteq> [] then [dot, space] else []) @ sentence
         in (chunks, current_chunk', length current_chunk')))"

fun chunk_loop :: "DocumentIngestor \<Rightarrow> pydict \<Rightarrow> chunker_state \<Rightarrow> pystr list \<Rightarrow> chunker_state" where
  "chunk_loop self md st [] = st"
| "chunk_loop self md st (sentence # rest) = chunk_loop self md (chunk_step self md st sentence) rest"

definition create_chunks :: "DocumentIngestor \<Rightarrow> pystr \<Rightarrow> pydict \<Rightarrow> chunk list" where
  "create_chunks self text md =
     (case chunk_loop self md ([], [], 0) (sentences text) of
        (chunks, current_chunk, current_length) \<Rightarrow>
          if strip current_chunk \<noteq> [] then chunks @ [mk_chunk md chunks current_chunk]
          else chunks)"

section \<open>External collaborators\<close>

text \<open>
  An exception is modelled by its message. Only \<open>Exception\<close> and its subclasses are
  modelled: that is what the \<open>except Exception\<close> handlers of the source catch.
\<close>

datatype exn = Exception string

text \<open>
  A \<open>pathlib.Path\<close>, by the attributes the pipeline reads: \<open>str(p)\<close>, \<open>p.name\<close>,
  \<open>str(p.parent)\<close> and \<open>p.suffix\<close>.
\<close>

record path =
  path_str :: pystr
  path_name :: pystr
  path_parent :: pystr
  path_suffix :: pystr

text \<open>One element of the embedding response's \<open>data\<close> list.\<close>

record item =
  embedding :: "real list"

text \<open>One record submitted to the \<open>document_chunks\<close> table.\<close>

record row =
  row_content :: pystr
  row_metadata :: pydict
  row_chunk_index :: "pyval option"
  row_embedding :: "real list"
  row_created_at :: pystr

text \<open>
  The observable effects of a run: the embedding requests and the insert operations
  issued so far, in order, and the number of \<open>time.sleep(0.1)\<close> pauses taken.
\<close>

record world =
  embedding_requests :: "pystr list list"
  inserts :: "row list list"
  sleeps :: nat

text \<open>
  The libraries and services the pipeline calls are parameters of the model. A call
  either raises or returns; the embedding service and the store may answer according to
  the history of calls. \<open>strftime k\<close> is the timestamp read while the \<open>k\<close>-th record
  of a batch is built, \<open>lower\<close> is \<open>str.lower\<close> with its Unicode case mapping, and
  \<open>rglob d pat\<close> lists the paths under \<open>d\<close> whose names match \<open>pat\<close>, directories
  included. \<open>is_file p\<close> tells whether \<open>p\<close> is a regular file; the pipeline never asks.
\<close>

record env =
  pdf_extract_text :: "path \<Rightarrow> exn + pystr option"
  mammoth_extract_raw_text :: "path \<Rightarrow> exn + pystr"
  image_to_string :: "path \<Rightarrow> exn + pystr"
  read_text :: "path \<Rightarrow> exn + pystr"
  lower :: "pystr \<Rightarrow> pystr"
  embedding_create :: "world \<Rightarrow> pystr list \<Rightarrow> exn + item list"
  table_insert :: "world \<Rightarrow> row list \<Rightarrow> exn + row list"
  strftime :: "nat \<Rightarrow> pystr"
  path_exists :: "pystr \<Rightarrow> bool"
  is_file :: "path \<Rightarrow> bool"
  rglob :: "pystr \<Rightarrow> pystr \<Rightarrow> path list"

section \<open>Extractor dispatcher\<close>

text \<open>The body of the \<open>try\<close> block of \<open>extract_text\<close>.\<close>

definition extract_body :: "env \<Rightarrow> path \<Rightarrow> exn + pystr" where
  "extract_body e file_path =
     (let ext = lower e (path_suffix file_path) in
      if ext = str ''.pdf'' then
        (case pdf_extract_text e file_path of
           Inl x \<Rightarrow> Inl x
         | Inr r \<Rightarrow> Inr (case r of None \<Rightarrow> [] | Some t \<Rightarrow> t))
      else if ext = str ''.docx'' then mammoth_extract_raw_text e file_path
      else if ext \<in> {str ''.png'', str ''.jpg'', str ''.jpeg'', str ''.tiff''} then
        image_to_string e file_path
      else if ext \<in> {str ''.txt'', str ''.md''} then read_text e file_path
      else Inr [])"

definition extract_text :: "env \<Rightarrow> path \<Rightarrow> pystr" where
  "extract_text e file_path =
     (case extract_body e file_path of Inl x \<Rightarrow> [] | Inr t \<Rightarrow> t)"

section \<open>Embedder and store writer\<close>

text \<open>The handlers log and re-raise, so an exception of the service is the result.\<close>

definition generate_embeddings :: "env \<Rightarrow> world \<Rightarrow> pystr list \<Rightarrow> (exn + real list list) \<times> world" where
  "generate_embeddings e w texts =
     (let w' = w\<lparr>embedding_requests := embedding_requests w @ [texts]\<rparr> in
      case embedding_create e w texts of
        Inl x \<Rightarrow> (Inl x, w')
      | Inr data \<Rightarrow> (Inr (map embedding data), w'))"

definition mk_row :: "env \<Rightarrow> nat \<times> chunk \<times> real list \<Rightarrow> row" where
  "mk_row e = (\<lambda>(k, c, v).
     (let chunk_meta = metadata c in
      \<lparr>row_content = content c,
       row_metadata = filter (\<lambda>(key, val). key \<noteq> ''chunk_index'') chunk_meta,
       row_chunk_index = map_of chunk_meta ''chunk_index'',
       row_embedding = v,
       row_created_at = strftime e k\<rparr>))"

definition data_to_insert :: "env \<Rightarrow> chunk list \<Rightarrow> real list list \<Rightarrow> row list" where
  "data_to_insert e chunks embeddings = map (mk_row e) (enumerate 0 (zip chunks embeddings))"

definition store_chunks :: "env \<Rightarrow> world \<Rightarrow> chunk list \<Rightarrow> real list list \<Rightarrow> (exn + row list) \<times> world" where
  "store_chunks e w chunks embeddings =
     (let rows = data_to_insert e chunks embeddings in
      (table_insert e w rows, w\<lparr>inserts := inserts w @ [rows]\<rparr>))"

section \<open>Pipeline orchestrator\<close>

text \<open>\<open>range(0, stop, step)\<close>: a zero step raises \<open>ValueError\<close>.\<close>

definition py_range :: "nat \<Rightarrow> nat \<Rightarrow> exn + nat list" where
  "py_range stop step =
     (if step = 0 then Inl (Exception ''ValueError'')
      else Inr (map (\<lambda>k. k * step) [0 ..< (stop + step - 1) div step]))"

text \<open>The loop over the batches of one file; \<open>is\<close> are the start indices still to do.\<close>

fun batch_loop :: "env \<Rightarrow> DocumentIngestor \<Rightarrow> chunk list \<Rightarrow> world \<Rightarrow> nat list \<Rightarrow> (exn + unit) \<times> world" where
  "batch_loop e self chunks w [] = (Inr (), w)"
| "batch_loop e self chunks w (i # is) =
     (let batch = take (batch_size self) (drop i chunks);
          texts = map content batch
      in case generate_embeddings e w texts of
           (Inl x, w1) \<Rightarrow> (Inl x, w1)
         | (Inr embeddings, w1) \<Rightarrow>
             (case store_chunks e w1 batch embeddings of
                (Inl x, w2) \<Rightarrow> (Inl x, w2)
              | (Inr r, w2) \<Rightarrow> batch_loop e self chunks (w2\<lparr>sleeps := sleeps w2 + 1\<rparr>) is))"

text \<open>
  The body of \<open>process_file\<close>; the variable \<open>content\<close> of the source is \<open>text\<close> here.
  An exception of the embedder or of the store writer ends the loop and the file counts
  as failed; what was requested or stored before stays in the world.
\<close>

definition process_file :: "env \<Rightarrow> DocumentIngestor \<Rightarrow> world \<Rightarrow> path \<Rightarrow> bool \<times> world" where
  "process_file e self w file_path =
     (let text = extract_text e file_path in
      if strip text = [] then (False, w)
      else
        (let md = [(''source'', PyStr (path_str file_path)),
                   (''filename'', PyStr (path_name file_path)),
                   (''directory'', PyStr (path_parent file_path)),
                   (''file_size'', PyInt (int (length text)))];
             chunks = create_chunks self text md
         in if chunks = [] then (False, w)
            else
              (case py_range (length chunks) (batch_size self) of
                 Inl x \<Rightarrow> (False, w)
               | Inr is \<Rightarrow>
                   (case batch_loop e self chunks w is of
                      (Inl x, w') \<Rightarrow> (False, w')
                    | (Inr u, w') \<Rightarrow> (True, w')))))"


definition collect_files :: "env \<Rightarrow> pystr list \<Rightarrow> pystr \<Rightarrow> path list" where
  "collect_files e order directory_path =
     concat (map (\<lambda>ext. rglob e directory_path (str ''*'' @ ext)) order)"

text \<open>The loop over the files; the state is \<open>(processed, failed, world)\<close>.\<close>

fun files_loop :: "env \<Rightarrow> DocumentIngestor \<Rightarrow> nat \<times> nat \<times> world \<Rightarrow> path list \<Rightarrow> nat \<times> nat \<times> world" where
  "files_loop e self st [] = st"
| "files_loop e self (processed, failed, w) (file_path # rest) =
     (case process_file e self w file_path of
        (True, w') \<Rightarrow> files_loop e self (processed + 1, failed, w') rest
      | (False, w') \<Rightarrow> files_loop e self (processed, failed + 1, w') rest)"

text \<open>
  The result is the pair of counts of the final log line, or \<open>None\<close> when the directory
  does not exist and the run stops before counting.
\<close>

definition process_directory :: "env \<Rightarrow> DocumentIngestor \<Rightarrow> pystr list \<Rightarrow> world \<Rightarrow> pystr \<Rightarrow> (nat \<times> nat) option \<times> world" where
  "process_directory e self order w directory_path =
     (if \<not> path_exists e directory_path then (None, w)
      else
        (case files_loop e self (0, 0, w) (collect_files e order directory_path) of
           (processed, failed, w') \<Rightarrow> (Some (processed, failed), w')))"

section \<open>A concrete environment\<close>

text \<open>
  A small environment used to exercise the theorems below: directory \<open>docs\<close> holds a PDF
  file that cannot be parsed and a text file; the embedding service rejects an empty
  request and otherwise answers one vector per text; the store accepts every batch.
\<close>

definition a_pdf :: path where
  "a_pdf = \<lparr>path_str = str ''docs/a.pdf'', path_name = str ''a.pdf'',
            path_parent = str ''docs'', path_suffix = str ''.pdf''\<rparr>"

definition b_txt :: path where
  "b_txt = \<lparr>path_str = str ''docs/b.txt'', path_name = str ''b.txt'',
            path_parent = str ''docs'', path_suffix = str ''.txt''\<rparr>"

definition demo_env :: env where
  "demo_env =
     \<lparr>pdf_extract_text = (\<lambda>p. Inl (Exception ''PDFSyntaxError'')),
      mammoth_extract_raw_text = (\<lambda>p. Inr (str ''Report. Done'')),
      image_to_string = (\<lambda>p. Inr []),
      read_text = (\<lambda>p. Inr (str ''Hi. Bye'')),
      lower = (\<lambda>s. s),
      embedding_create = (\<lambda>w texts.
        if texts = [] then Inl (Exception ''InvalidRequestError'')
        else Inr (map (\<lambda>t. \<lparr>embedding = [real (length t)]\<rparr>) texts)),
      table_insert = (\<lambda>w rows. Inr rows),
      strftime = (\<lambda>k. str ''2024-01-01 00:00:00''),
      path_exists = (\<lambda>d. d = str ''docs'' \<or> d = str ''empty''),
      is_file = (\<lambda>p. True),
      rglob = (\<lambda>d pat.
        if d = str ''docs'' \<and> pat = str ''*.pdf'' then [a_pdf]
        else if d = str ''docs'' \<and> pat = str ''*.txt'' then [b_txt]
        else [])\<rparr>"

definition empty_world :: world where
  "empty_world = \<lparr>embedding_requests = [], inserts = [], sleeps = 0\<rparr>"

definition ext_order :: "pystr list" where
  "ext_order = [str ''.pdf'', str ''.txt'', str ''.md'', str ''.docx'',
      str ''.png'', str ''.jpg'', str ''.jpeg'', str ''.tiff'']"

definition chunk_a :: chunk where
  "chunk_a = \<lparr>content = str ''Hi'',
     metadata = [(''source'', PyStr (str ''docs/b.txt'')), (''chunk_index'', PyInt 0)]\<rparr>"

definition chunk_b :: chunk where
  "chunk_b = \<lparr>content = str ''Hi. Bye'',
     metadata = [(''source'', PyStr (str ''docs/b.txt'')), (''chunk_index'', PyInt 1)]\<rparr>"



section \<open>Notions used in the statements and proofs\<close>

text \<open>
  A string is trimmed when it is not empty and neither starts nor ends with whitespace;
  it is clean when it is trimmed and holds no period. The sentence units are clean.
\<close>

definition trimmed :: "pystr \<Rightarrow> bool" where
  "trimmed s \<longleftrightarrow> s \<noteq> [] \<and> \<not> isspace (hd s) \<and> \<not> isspace (last s)"

definition clean :: "pystr \<Rightarrow> bool" where
  "clean s \<longleftrightarrow> trimmed s \<and> dot \<notin> set s"

text \<open>
  The chunk list of the loop state holds the closed buffers with their indices, so the
  loop is followed on the pair of the closed buffers and the pending one.
\<close>

fun buf_step :: "nat \<Rightarrow> pystr list \<times> pystr \<Rightarrow> pystr \<Rightarrow> pystr list \<times> pystr" where
  "buf_step n (out, cur) s =
     (if length cur + length s > n \<and> cur \<noteq> [] then
        (out @ [cur], overlap cur @ [dot, space] @ s)
      else (out, cur @ (if cur \<noteq> [] then [dot, space] else []) @ s))"

definition buf_loop :: "nat \<Rightarrow> pystr list \<times> pystr \<Rightarrow> pystr list \<Rightarrow> pystr list \<times> pystr" where
  "buf_loop n st ss = foldl (buf_step n) st ss"

definition buffers :: "nat \<Rightarrow> pystr list \<Rightarrow> pystr list" where
  "buffers n ss = (case buf_loop n ([], []) ss of (out, cur) \<Rightarrow> out @ [cur])"

definition index_chunks :: "pydict \<Rightarrow> pystr list \<Rightarrow> chunk list" where
  "index_chunks md bs =
     map (\<lambda>(i, b). \<lparr>content = b, metadata = AList.update ''chunk_index'' (PyInt (int i)) md\<rparr>)
       (enumerate 0 bs)"

definition chained :: "pystr list \<Rightarrow> bool" where
  "chained B \<longleftrightarrow>
     (\<forall>i. Suc i < length B \<longrightarrow> prefix (overlap (B ! i) @ [dot, space]) (B ! Suc i))"

text \<open>An ingestor with a chunk size of 5, to see several chunks on a short text.\<close>

definition small :: DocumentIngestor where
  "small = init\<lparr>chunk_size := 5\<rparr>"

text \<open>
  The non-overlap portion of a chunk, in the words of the specification: the first chunk
  whole; of every later chunk what follows the overlap seed taken from the chunk before
  it and the two characters \<open>'. '\<close> that join the seed to the new text.
\<close>

fun portions_from :: "pystr \<Rightarrow> pystr list \<Rightarrow> pystr list" where
  "portions_from prev [] = []"
| "portions_from prev (c # cs) = drop (length (overlap prev) + 2) c # portions_from c cs"

fun non_overlap_portions :: "pystr list \<Rightarrow> pystr list" where
  "non_overlap_portions [] = []"
| "non_overlap_portions (c # cs) = c # portions_from c cs"

text \<open>
  A buffer fits when it is at most two characters longer than the chunk size, or is the
  first buffer and a single sentence, or is the seed of the buffer before it followed by
  a single sentence.
\<close>

definition fits :: "nat \<Rightarrow> pystr list \<Rightarrow> pystr list \<Rightarrow> bool" where
  "fits n ss B \<longleftrightarrow>
     (\<forall>i<length B.
        length (B ! i) \<le> n + 2 \<or>
        (i = 0 \<and> B ! 0 \<in> set ss) \<or>
        (0 < i \<and> (\<exists>s\<in>set ss. B ! i = overlap (B ! (i - 1)) @ [dot, space] @ s)))"

text \<open>
  Two texts with long second sentences: in \<open>long_pair\<close> the two sentences have 1000
  characters together, in \<open>long_seed\<close> 1001.
\<close>

definition long_pair :: pystr where
  "long_pair = str ''a.'' @ replicate 999 98"

definition long_seed :: pystr where
  "long_seed = str ''a.'' @ replicate 1000 98"

text \<open>A text of 999 characters with five sentence units.\<close>

definition five_units :: pystr where
  "five_units = str ''a.a.a.a.'' @ replicate 991 98"

text \<open>
  Modelled from the spec: the contract of the external embedding service, which is not
  part of the source (external interfaces, embedding request: the response is a
  same-length, order-preserving sequence of vectors). A request that does not raise is
  answered by one item per text, in the order of the texts. \<open>R t v\<close> says that \<open>v\<close> is the vector the service gives for the
  text \<open>t\<close>; the pipeline never looks into the vectors, so \<open>R\<close> is arbitrary.
\<close>

definition service_contract :: "(pystr \<Rightarrow> real list \<Rightarrow> bool) \<Rightarrow> env \<Rightarrow> bool" where
  "service_contract R e \<longleftrightarrow>
     (\<forall>w texts data. embedding_create e w texts = Inr data \<longrightarrow>
        list_all2 (\<lambda>t it. R t (embedding it)) texts data)"

text \<open>The vector that the service of \<open>demo_env\<close> gives for a text.\<close>

definition demo_vector :: "pystr \<Rightarrow> real list \<Rightarrow> bool" where
  "demo_vector t v \<longleftrightarrow> v = [real (length t)]"

text \<open>A text whose first sentence has 25 words.\<close>

definition letters :: pystr where
  "letters = str ''a b c d e f g h i j k l m n o p q r s t u v w x y. z''"

text \<open>A text of 999 characters whose four sentence units, joined, have 1002.\<close>

definition four_units :: pystr where
  "four_units = str ''a.a.a.'' @ replicate 993 98"

section \<open>The embedder\<close>

text \<open>
  C4: for every list of texts, \<open>generate_embeddings\<close> either returns a list with one
  vector per text, of the same length as the input and in the same order (the \<open>i\<close>-th
  vector is the one the service gave for the \<open>i\<close>-th text), or raises the error that the
  embedding service raised; it returns nothing partial, empty or default in that case.
  The service is the external collaborator of the specification, answering a request
  that it accepts with one item per text in the order of the texts.
\<close>

theorem generate_embeddings_contract:
  assumes "service_contract R e"
  shows "(case fst (generate_embeddings e w texts) of
            Inr vs \<Rightarrow> length vs = length texts \<and> (\<forall>i<length texts. R (texts ! i) (vs ! i))
          | Inl x \<Rightarrow> embedding_create e w texts = Inl x) \<and>
         (\<forall>x. embedding_create e w texts = Inl x \<longrightarrow>
            fst (generate_embeddings e w texts) = Inl x)"
proof (cases "embedding_create e w texts")
  case (Inl x)
  then show ?thesis by (simp add: generate_embeddings_def)
next
  case (Inr data)
  with assms have a: "list_all2 (\<lambda>t it. R t (embedding it)) texts data"
    by (simp add: service_contract_def)
  then have l: "length data = length texts" by (simp add: list_all2_lengthD)
  have "\<forall>i<length texts. R (texts ! i) (map embedding data ! i)"
  proof (intro allI impI)
    fix i assume i: "i < length texts"
    with a have "R (texts ! i) (embedding (data ! i))" by (rule list_all2_nthD)
    with i l show "R (texts ! i) (map embedding data ! i)" by simp
  qed
  with Inr l show ?thesis by (simp add: generate_embeddings_def)
qed

lemma demo_env_contract: "service_contract demo_vector demo_env"
  by (auto simp: service_contract_def demo_env_def demo_vector_def list_all2_conv_all_nth
      split: if_splits)

theorem generate_embeddings_contract_witness:
  "embedding_create demo_env empty_world [str ''Hi'', str ''Bye''] =
     Inr [\<lparr>embedding = [2]\<rparr>, \<lparr>embedding = [3]\<rparr>] \<and>
   demo_vector (str ''Hi'') [2] \<and> demo_vector (str ''Bye'') [3] \<and>
   fst (generate_embeddings demo_env empty_world [str ''Hi'', str ''Bye'']) = Inr [[2], [3]] \<and>
   embedding_create demo_env empty_world [] = Inl (Exception ''InvalidRequestError'') \<and>
   fst (generate_embeddings demo_env empty_world []) = Inl (Exception ''InvalidRequestError'')"
proof -
  have a: "embedding_create demo_env empty_world [str ''Hi'', str ''Bye''] =
     Inr [\<lparr>embedding = [2]\<rparr>, \<lparr>embedding = [3]\<rparr>]"
    by (simp add: demo_env_def str_def)
  have b: "embedding_create demo_env empty_world [] = Inl (Exception ''InvalidRequestError'')"
    by (simp add: demo_env_def)
  have v: "demo_vector (str ''Hi'') [2]" "demo_vector (str ''Bye'') [3]"
    by (simp_all add: demo_vector_def str_def)
  from generate_embeddings_contract [OF demo_env_contract, of empty_world "[]"] b
  have e: "fst (generate_embeddings demo_env empty_world []) = Inl (Exception ''InvalidRequestError'')"
    by simp
  have g: "fst (generate_embeddings demo_env empty_world [str ''Hi'', str ''Bye'']) = Inr [[2], [3]]"
    using a by (simp add: generate_embeddings_def)
  from generate_embeddings_contract
    [OF demo_env_contract, of empty_world "[str ''Hi'', str ''Bye'']"] g
  have all: "\<forall>i<length [str ''Hi'', str ''Bye''].
      demo_vector ([str ''Hi'', str ''Bye''] ! i) ([[2], [3]] ! i)" by simp
  from all [rule_format, of 1] have "demo_vector (str ''Bye'') [3]" by simp
  with a b v e g show ?thesis by simp
qed

section \<open>The store writer\<close>

lemma data_to_insert_length:
  "length (data_to_insert e chunks embeddings) = min (length chunks) (length embeddings)"
  by (simp add: data_to_insert_def)

lemma data_to_insert_nth:
  assumes "i < length chunks" "i < length embeddings"
  shows "data_to_insert e chunks embeddings ! i = mk_row e (i, chunks ! i, embeddings ! i)"
  using assms by (simp add: data_to_insert_def nth_enumerate_eq)

lemma delete_as_filter:
  "filter (\<lambda>(key, val). key \<noteq> k) m = AList.delete k m"
  by (induction m) auto

lemma data_to_insert_take:
  assumes "n = min (length chunks) (length embeddings)"
  shows "data_to_insert e (take n chunks) (take n embeddings) = data_to_insert e chunks embeddings"
  using assms
  by (intro nth_equalityI) (simp_all add: data_to_insert_length data_to_insert_nth)

text \<open>
  C5: for chunks and embeddings of equal length, \<open>store_chunks\<close> builds one record per
  pair: the chunk's content, the chunk's metadata without the \<open>chunk_index\<close> key, the
  metadata's \<open>chunk_index\<close> as a top-level field, the pair's embedding and a timestamp.
  All records go to the store in one insert operation, the only effect of the call, and
  the result is the store's own: its error when it raises.
\<close>

theorem store_chunks_records:
  "length chunks = length embeddings \<Longrightarrow>
   (\<exists>rows. store_chunks e w chunks embeddings =
             (table_insert e w rows, w\<lparr>inserts := inserts w @ [rows]\<rparr>) \<and>
      length rows = length chunks \<and>
      (\<forall>i<length chunks.
         row_content (rows ! i) = content (chunks ! i) \<and>
         row_metadata (rows ! i) = AList.delete ''chunk_index'' (metadata (chunks ! i)) \<and>
         row_chunk_index (rows ! i) = map_of (metadata (chunks ! i)) ''chunk_index'' \<and>
         row_embedding (rows ! i) = embeddings ! i \<and>
         row_created_at (rows ! i) = strftime e i))"
proof -
  assume len: "length chunks = length embeddings"
  let ?rows = "data_to_insert e chunks embeddings"
  have "store_chunks e w chunks embeddings =
          (table_insert e w ?rows, w\<lparr>inserts := inserts w @ [?rows]\<rparr>)"
    by (simp add: store_chunks_def Let_def)
  moreover have "length ?rows = length chunks"
    using len by (simp add: data_to_insert_length)
  moreover have "\<forall>i<length chunks.
         row_content (?rows ! i) = content (chunks ! i) \<and>
         row_metadata (?rows ! i) = AList.delete ''chunk_index'' (metadata (chunks ! i)) \<and>
         row_chunk_index (?rows ! i) = map_of (metadata (chunks ! i)) ''chunk_index'' \<and>
         row_embedding (?rows ! i) = embeddings ! i \<and>
         row_created_at (?rows ! i) = strftime e i"
    using len by (simp add: data_to_insert_nth mk_row_def delete_as_filter Let_def)
  ultimately show ?thesis by blast
qed

text \<open>
  C10: with lists of unequal lengths \<open>store_chunks\<close> builds and submits the records of
  the first \<open>min (len chunks) (len embeddings)\<close> pairs only, and behaves exactly as on
  the two lists cut to that length: the surplus elements raise no error of their own.
\<close>

theorem store_chunks_length_mismatch:
  "length chunks \<noteq> length embeddings \<Longrightarrow>
   (\<exists>rows. length rows = min (length chunks) (length embeddings) \<and>
      rows = data_to_insert e (take (length rows) chunks) (take (length rows) embeddings) \<and>
      store_chunks e w chunks embeddings =
        (table_insert e w rows, w\<lparr>inserts := inserts w @ [rows]\<rparr>) \<and>
      store_chunks e w chunks embeddings =
        store_chunks e w (take (length rows) chunks) (take (length rows) embeddings))"
proof -
  let ?rows = "data_to_insert e chunks embeddings"
  have l: "length ?rows = min (length chunks) (length embeddings)"
    by (simp add: data_to_insert_length)
  have t: "data_to_insert e (take (length ?rows) chunks) (take (length ?rows) embeddings) = ?rows"
    by (rule data_to_insert_take) (simp add: data_to_insert_length)
  have "store_chunks e w chunks embeddings =
          (table_insert e w ?rows, w\<lparr>inserts := inserts w @ [?rows]\<rparr>)"
    by (simp add: store_chunks_def Let_def)
  moreover have "store_chunks e w chunks embeddings =
        store_chunks e w (take (length ?rows) chunks) (take (length ?rows) embeddings)"
    by (simp add: store_chunks_def Let_def t)
  ultimately show ?thesis using l t by metis
qed

theorem store_chunks_records_witness:
  "length [chunk_a, chunk_b] = length [[2], [7::real]] \<and>
   (\<exists>rows. store_chunks demo_env empty_world [chunk_a, chunk_b] [[2], [7]] =
             (Inr rows, empty_world\<lparr>inserts := [rows]\<rparr>) \<and>
      length rows = 2 \<and>
      row_content (rows ! 1) = str ''Hi. Bye'' \<and>
      row_metadata (rows ! 1) = [(''source'', PyStr (str ''docs/b.txt''))] \<and>
      row_chunk_index (rows ! 1) = Some (PyInt 1) \<and>
      row_embedding (rows ! 1) = [7] \<and>
      row_created_at (rows ! 1) = str ''2024-01-01 00:00:00'')"
proof -
  have len: "length [chunk_a, chunk_b] = length [[2], [7::real]]" by simp
  from store_chunks_records [OF len, of demo_env empty_world]
  obtain rows where
    r: "store_chunks demo_env empty_world [chunk_a, chunk_b] [[2], [7]] =
          (table_insert demo_env empty_world rows, empty_world\<lparr>inserts := inserts empty_world @ [rows]\<rparr>)"
     "length rows = length [chunk_a, chunk_b]"
     "\<forall>i<length [chunk_a, chunk_b].
         row_content (rows ! i) = content ([chunk_a, chunk_b] ! i) \<and>
         row_metadata (rows ! i) = AList.delete ''chunk_index'' (metadata ([chunk_a, chunk_b] ! i)) \<and>
         row_chunk_index (rows ! i) = map_of (metadata ([chunk_a, chunk_b] ! i)) ''chunk_index'' \<and>
         row_embedding (rows ! i) = [[2], [7]] ! i \<and>
         row_created_at (rows ! i) = strftime demo_env i"
    by blast
  from r(3) have
    "row_content (rows ! 1) = content ([chunk_a, chunk_b] ! 1) \<and>
     row_metadata (rows ! 1) = AList.delete ''chunk_index'' (metadata ([chunk_a, chunk_b] ! 1)) \<and>
     row_chunk_index (rows ! 1) = map_of (metadata ([chunk_a, chunk_b] ! 1)) ''chunk_index'' \<and>
     row_embedding (rows ! 1) = [[2], [7]] ! 1 \<and>
     row_created_at (rows ! 1) = strftime demo_env 1"
    by simp
  then have
    "row_content (rows ! 1) = str ''Hi. Bye'' \<and>
      row_metadata (rows ! 1) = [(''source'', PyStr (str ''docs/b.txt''))] \<and>
      row_chunk_index (rows ! 1) = Some (PyInt 1) \<and>
      row_embedding (rows ! 1) = [7] \<and>
      row_created_at (rows ! 1) = str ''2024-01-01 00:00:00''"
    by (simp add: chunk_b_def demo_env_def AList.delete_eq)
  moreover have "store_chunks demo_env empty_world [chunk_a, chunk_b] [[2], [7]] =
             (Inr rows, empty_world\<lparr>inserts := [rows]\<rparr>)"
    using r(1) by (simp add: demo_env_def empty_world_def)
  ultimately show ?thesis using r(2) len by auto
qed

theorem store_chunks_length_mismatch_witness:
  "length [chunk_a, chunk_b] \<noteq> length [[2::real]] \<and>
   store_chunks demo_env empty_world [chunk_a, chunk_b] [[2]] =
     store_chunks demo_env empty_world [chunk_a] [[2]] \<and>
   (\<exists>r. store_chunks demo_env empty_world [chunk_a, chunk_b] [[2]] =
      (Inr [r], empty_world\<lparr>inserts := [[r]]\<rparr>))"
proof -
  have ne: "length [chunk_a, chunk_b] \<noteq> length [[2::real]]" by simp
  from store_chunks_length_mismatch [OF ne, of demo_env empty_world]
  obtain rows where
    l: "length rows = min (length [chunk_a, chunk_b]) (length [[2::real]])" and
    s: "store_chunks demo_env empty_world [chunk_a, chunk_b] [[2]] =
        (table_insert demo_env empty_world rows,
         empty_world\<lparr>inserts := inserts empty_world @ [rows]\<rparr>)" and
    t: "store_chunks demo_env empty_world [chunk_a, chunk_b] [[2]] =
        store_chunks demo_env empty_world (take (length rows) [chunk_a, chunk_b])
          (take (length rows) [[2]])"
    by blast
  from l obtain r where r: "rows = [r]"
    by (auto simp: length_Suc_conv)
  have ok: "table_insert demo_env empty_world rows = Inr rows"
    by (simp add: demo_env_def)
  have "store_chunks demo_env empty_world [chunk_a, chunk_b] [[2]] =
      (Inr [r], empty_world\<lparr>inserts := [[r]]\<rparr>)"
    using s ok r by (simp add: empty_world_def)
  moreover have "store_chunks demo_env empty_world [chunk_a, chunk_b] [[2]] =
     store_chunks demo_env empty_world [chunk_a] [[2]]"
    using t r by simp
  ultimately show ?thesis using ne by blast
qed

section \<open>The orchestrator\<close>

lemma process_file_extraction_raises:
  assumes "extract_body e f = Inl x"
  shows "process_file e self w f = (False, w)"
  using assms by (simp add: process_file_def extract_text_def strip_def)

lemma process_file_cases:
  "(\<exists>w'. process_file e self w f = (True, w')) \<or> (\<exists>w'. process_file e self w f = (False, w'))"
  by (cases "process_file e self w f") auto

lemma files_loop_append:
  "files_loop e self st (xs @ ys) = files_loop e self (files_loop e self st xs) ys"
proof (induction xs arbitrary: st)
  case Nil
  show ?case by simp
next
  case (Cons a xs)
  obtain p fl w where st: "st = (p, fl, w)" by (cases st) auto
  obtain b w' where pf: "process_file e self w a = (b, w')" by (cases "process_file e self w a") auto
  show ?case using Cons.IH st pf by (cases b) simp_all
qed

lemma files_loop_counts:
  "files_loop e self (p, fl, w) fs = (p', fl', w') \<Longrightarrow>
     p' + fl' = p + fl + length fs \<and> p \<le> p' \<and> fl \<le> fl'"
proof (induction fs arbitrary: p fl w)
  case Nil
  then show ?case by simp
next
  case (Cons a fs)
  obtain b w1 where pf: "process_file e self w a = (b, w1)" by (cases "process_file e self w a") auto
  show ?case
  proof (cases b)
    case True
    with Cons.prems pf have "files_loop e self (p + 1, fl, w1) fs = (p', fl', w')" by simp
    from Cons.IH [OF this] show ?thesis by simp
  next
    case False
    with Cons.prems pf have "files_loop e self (p, fl + 1, w1) fs = (p', fl', w')" by simp
    from Cons.IH [OF this] show ?thesis by simp
  qed
qed

text \<open>
  C6: in a run over an existing directory whose file list is \<open>pre @ f # post\<close>, where the
  extraction of \<open>f\<close> raises: \<open>process_file\<close> answers \<open>False\<close> for \<open>f\<close> and issues no
  request; the run adds one to the failed count for \<open>f\<close>, leaves the processed count as
  \<open>pre\<close> made it, and goes on to process every file of \<open>post\<close>. Every file is counted
  once, so \<open>f\<close> is never among the processed.
\<close>

theorem extraction_failure_counted:
  assumes ex: "path_exists e d"
    and files: "collect_files e order d = pre @ f # post"
    and raises: "extract_body e f = Inl x"
  shows "(\<forall>w'. process_file e self w' f = (False, w')) \<and>
    (\<exists>p1 f1 w1 p2 f2 w2.
       files_loop e self (0, 0, w) pre = (p1, f1, w1) \<and>
       files_loop e self (p1, f1 + 1, w1) post = (p2, f2, w2) \<and>
       process_directory e self order w d = (Some (p2, f2), w2) \<and>
       p2 + f2 = length pre + 1 + length post \<and> p2 \<le> length pre + length post \<and> 1 \<le> f2)"
proof -
  have pf: "\<And>w'. process_file e self w' f = (False, w')"
    using raises by (rule process_file_extraction_raises)
  obtain p1 f1 w1 where a: "files_loop e self (0, 0, w) pre = (p1, f1, w1)"
    by (cases "files_loop e self (0, 0, w) pre") auto
  obtain p2 f2 w2 where b: "files_loop e self (p1, f1 + 1, w1) post = (p2, f2, w2)"
    by (cases "files_loop e self (p1, f1 + 1, w1) post") auto
  have "files_loop e self (0, 0, w) (pre @ f # post) = (p2, f2, w2)"
    using a b pf by (simp add: files_loop_append)
  then have pd: "process_directory e self order w d = (Some (p2, f2), w2)"
    using ex files by (simp add: process_directory_def)
  from files_loop_counts [OF a] have ca: "p1 + f1 = length pre" by simp
  from files_loop_counts [OF b] have cb: "p2 + f2 = p1 + (f1 + 1) + length post" "f1 + 1 \<le> f2"
    by simp_all
  have "p2 + f2 = length pre + 1 + length post" using ca cb by simp
  moreover have "1 \<le> f2" using cb by simp
  ultimately have "p2 \<le> length pre + length post" by simp
  with a b pd \<open>p2 + f2 = length pre + 1 + length post\<close> \<open>1 \<le> f2\<close> pf show ?thesis by blast
qed










lemma collect_docs: "collect_files demo_env ext_order (str ''docs'') = [] @ a_pdf # [b_txt]"
  by (simp add: collect_files_def demo_env_def ext_order_def str_def)

lemma a_pdf_raises: "extract_body demo_env a_pdf = Inl (Exception ''PDFSyntaxError'')"
  by (simp add: extract_body_def demo_env_def a_pdf_def)

lemma b_txt_text: "extract_text demo_env b_txt = str ''Hi. Bye''"
  by (simp add: extract_text_def extract_body_def demo_env_def b_txt_def str_def)

lemma sentences_demo: "sentences (str ''Hi. Bye'') = [str ''Hi'', str ''Bye'']"
  by (simp add: str_def sentences_def strip_def isspace_def dot_def)

lemma b_txt_chunks:
  "create_chunks init (str ''Hi. Bye'') md =
     [\<lparr>content = str ''Hi. Bye'', metadata = AList.update ''chunk_index'' (PyInt 0) md\<rparr>]"
  by (simp add: create_chunks_def sentences_demo init_def)
     (simp add: str_def mk_chunk_def strip_def isspace_def dot_def space_def)

lemma strip_demo: "strip (str ''Hi. Bye'') = str ''Hi. Bye''"
  by (simp add: str_def strip_def isspace_def)

lemma py_range_demo: "py_range (Suc 0) 10 = Inr [0]"
  by (simp add: py_range_def)

lemma batch_size_init: "batch_size init = 10"
  by (simp add: init_def)

lemma b_txt_ok:
  "\<exists>w'. process_file demo_env init w b_txt = (True, w')"
proof -
  have ne: "str ''Hi. Bye'' \<noteq> []" by (simp add: str_def)
  have emb: "embedding_create demo_env w [str ''Hi. Bye''] = Inr [\<lparr>embedding = [7]\<rparr>]"
    by (simp add: demo_env_def str_def)
  have ins: "\<And>w rows. table_insert demo_env w rows = Inr rows"
    by (simp add: demo_env_def)
  show ?thesis
    by (simp add: process_file_def b_txt_text strip_demo ne b_txt_chunks py_range_demo
        generate_embeddings_def emb store_chunks_def ins Let_def batch_size_init)
qed

theorem extraction_failure_counted_witness:
  "path_exists demo_env (str ''docs'') \<and>
   collect_files demo_env ext_order (str ''docs'') = [] @ a_pdf # [b_txt] \<and>
   extract_body demo_env a_pdf = Inl (Exception ''PDFSyntaxError'') \<and>
   process_file demo_env init empty_world a_pdf = (False, empty_world) \<and>
   fst (process_directory demo_env init ext_order empty_world (str ''docs'')) = Some (1, 1)"
proof -
  have ex: "path_exists demo_env (str ''docs'')" by (simp add: demo_env_def)
  from extraction_failure_counted [OF ex collect_docs a_pdf_raises, of init empty_world]
  obtain p1 f1 w1 p2 f2 w2 where
    pf: "process_file demo_env init empty_world a_pdf = (False, empty_world)" and
    a: "files_loop demo_env init (0, 0, empty_world) [] = (p1, f1, w1)" and
    b: "files_loop demo_env init (p1, f1 + 1, w1) [b_txt] = (p2, f2, w2)" and
    pd: "process_directory demo_env init ext_order empty_world (str ''docs'') = (Some (p2, f2), w2)"
    by blast
  from a have "p1 = 0" "f1 = 0" by simp_all
  with b have "files_loop demo_env init (0, 1, w1) [b_txt] = (p2, f2, w2)" by simp
  moreover obtain wb where "process_file demo_env init w1 b_txt = (True, wb)"
    using b_txt_ok by blast
  ultimately have "p2 = 1" "f2 = 1"
    by simp_all
  with pd have "fst (process_directory demo_env init ext_order empty_world (str ''docs'')) = Some (1, 1)"
    by simp
  with ex collect_docs a_pdf_raises pf show ?thesis by blast
qed

section \<open>Facts about the string operations\<close>

lemma isspace_space [simp]: "isspace space"
  by (simp add: isspace_def space_def)

lemma not_isspace_dot [simp]: "\<not> isspace dot"
  by (simp add: isspace_def dot_def)

lemma dot_neq_space [simp]: "dot \<noteq> space" "space \<noteq> dot"
  by (simp_all add: dot_def space_def)

lemma strip_Nil [simp]: "strip [] = []"
  by (simp add: strip_def)

lemma strip_trimmed: "trimmed s \<Longrightarrow> strip s = s"
proof -
  assume t: "trimmed s"
  then obtain c cs where s: "s = c # cs" and c: "\<not> isspace c"
    by (cases s) (auto simp: trimmed_def)
  have a: "dropWhile isspace s = s" using s c by simp
  from t have "rev s \<noteq> []" "\<not> isspace (hd (rev s))"
    by (simp_all add: trimmed_def hd_rev)
  then have "dropWhile isspace (rev s) = rev s"
    by (cases "rev s") auto
  with a show ?thesis by (simp add: strip_def)
qed

lemma last_dropWhile: "dropWhile P xs \<noteq> [] \<Longrightarrow> last (dropWhile P xs) = last xs"
  by (induction xs) (auto split: if_splits)

lemma trimmed_strip: "strip s \<noteq> [] \<Longrightarrow> trimmed (strip s)"
proof -
  assume ne: "strip s \<noteq> []"
  define a where "a = dropWhile isspace s"
  define b where "b = dropWhile isspace (rev a)"
  have st: "strip s = rev b" by (simp add: strip_def a_def b_def)
  with ne have b: "b \<noteq> []" by simp
  have a: "a \<noteq> []"
  proof
    assume "a = []"
    then have "b = []" by (simp add: b_def)
    with b show False by simp
  qed
  have "\<not> isspace (hd b)" using b unfolding b_def by (rule hd_dropWhile)
  then have l: "\<not> isspace (last (strip s))" using st b by (simp add: last_rev)
  have "last b = last (rev a)" using b unfolding b_def by (rule last_dropWhile)
  also have "\<dots> = hd a" using a by (simp add: last_rev)
  finally have "hd (strip s) = hd a" using st b by (simp add: hd_rev)
  moreover have "\<not> isspace (hd a)" using a unfolding a_def by (rule hd_dropWhile)
  ultimately show ?thesis using ne l by (simp add: trimmed_def)
qed

lemma set_strip: "set (strip s) \<subseteq> set s"
proof
  fix x assume "x \<in> set (strip s)"
  then have "x \<in> set (dropWhile isspace (rev (dropWhile isspace s)))"
    by (simp add: strip_def)
  then have "x \<in> set (rev (dropWhile isspace s))" by (rule set_dropWhileD)
  then have "x \<in> set (dropWhile isspace s)" by simp
  then show "x \<in> set s" by (rule set_dropWhileD)
qed

lemma strip_space_Cons [simp]: "strip (space # s) = strip s"
  by (simp add: strip_def)

lemma split_on_ne [simp]: "split_on d s \<noteq> []"
  by (induction s) (auto simp: Let_def)

lemma split_on_append: "split_on d (a @ d # b) = split_on d a @ split_on d b"
proof (induction a)
  case Nil
  show ?case by simp
next
  case (Cons c a)
  show ?case
  proof (cases "c = d")
    case True
    with Cons show ?thesis by simp
  next
    case False
    obtain p ps where r: "split_on d a = p # ps"
      by (cases "split_on d a") (use split_on_ne in auto)
    with False Cons show ?thesis by (simp add: Let_def)
  qed
qed

lemma split_on_nodot: "d \<notin> set s \<Longrightarrow> split_on d s = [s]"
  by (induction s) (auto simp: Let_def)

lemma split_on_pieces: "p \<in> set (split_on d s) \<Longrightarrow> d \<notin> set p"
proof (induction s arbitrary: p)
  case Nil
  then show ?case by simp
next
  case (Cons c s)
  obtain q qs where r: "split_on d s = q # qs"
    by (cases "split_on d s") (use split_on_ne in auto)
  show ?case
  proof (cases "c = d")
    case True
    with Cons show ?thesis by auto
  next
    case False
    with Cons.prems r have "p = c # q \<or> p \<in> set qs" by (simp add: Let_def)
    then show ?thesis
    proof
      assume "p = c # q"
      moreover have "d \<notin> set q" using Cons.IH [of q] r by simp
      ultimately show ?thesis using False by auto
    next
      assume "p \<in> set qs"
      then show ?thesis using Cons.IH [of p] r by simp
    qed
  qed
qed

lemma sentences_clean: "s \<in> set (sentences t) \<Longrightarrow> clean s"
proof -
  assume "s \<in> set (sentences t)"
  then obtain p where p: "p \<in> set (split_on dot t)" "strip p \<noteq> []" "s = strip p"
    by (auto simp: sentences_def)
  have "dot \<notin> set p" using p(1) by (rule split_on_pieces)
  then have "dot \<notin> set s" using p(3) set_strip by blast
  moreover have "trimmed s" using p(2,3) trimmed_strip by simp
  ultimately show ?thesis by (simp add: clean_def)
qed

lemma sentences_append_dot: "sentences (a @ dot # b) = sentences a @ sentences b"
  by (simp add: sentences_def split_on_append)

lemma sentences_single: "clean s \<Longrightarrow> sentences s = [s]"
  by (simp add: sentences_def clean_def split_on_nodot strip_trimmed trimmed_def)

lemma sentences_space_Cons: "clean s \<Longrightarrow> sentences (space # s) = [s]"
  by (auto simp: sentences_def clean_def split_on_nodot strip_trimmed trimmed_def)

lemma sentences_snoc: "clean s \<Longrightarrow> sentences (p @ [dot, space] @ s) = sentences p @ [s]"
  using sentences_append_dot [of p "space # s"] by (simp add: sentences_space_Cons)

lemma sentences_Nil [simp]: "sentences [] = []"
  by (simp add: sentences_def)

subsection \<open>Words and the overlap seed\<close>

lemma split_ws_Nil [simp]: "split_ws [] = []"
  by (simp add: split_ws.simps)

lemma split_ws_space: "isspace c \<Longrightarrow> split_ws (c # s) = split_ws s"
  by (simp add: split_ws.simps [of "c # s"] split_ws.simps [of s])

lemma split_ws_nonspace:
  "\<not> isspace c \<Longrightarrow>
   split_ws (c # s) =
     (c # takeWhile (\<lambda>c. \<not> isspace c) s) # split_ws (dropWhile (\<lambda>c. \<not> isspace c) s)"
  by (simp add: split_ws.simps [of "c # s"])

lemma split_ws_unfold:
  assumes "dropWhile isspace s = v" "v \<noteq> []"
  shows "split_ws s =
     takeWhile (\<lambda>c. \<not> isspace c) v # split_ws (dropWhile (\<lambda>c. \<not> isspace c) v)"
  using assms by (subst split_ws.simps) (auto simp: Let_def)

lemma split_ws_blank: "dropWhile isspace s = [] \<Longrightarrow> split_ws s = []"
  by (subst split_ws.simps) (auto simp: Let_def)

lemma split_ws_word: "w \<in> set (split_ws s) \<Longrightarrow> w \<noteq> [] \<and> \<not> isspace (hd w)"
proof (induction s rule: split_ws.induct)
  case (1 s)
  define v where "v = dropWhile isspace s"
  show ?case
  proof (cases "v = []")
    case True
    then have "split_ws s = []" unfolding v_def by (rule split_ws_blank)
    with "1.prems" show ?thesis by simp
  next
    case False
    then have h: "\<not> isspace (hd v)" unfolding v_def by (rule hd_dropWhile)
    have "split_ws s =
       takeWhile (\<lambda>c. \<not> isspace c) v # split_ws (dropWhile (\<lambda>c. \<not> isspace c) v)"
      using v_def [symmetric] False by (rule split_ws_unfold)
    with "1.prems"
    have "w = takeWhile (\<lambda>c. \<not> isspace c) v \<or> w \<in> set (split_ws (dropWhile (\<lambda>c. \<not> isspace c) v))"
      by simp
    then show ?thesis
    proof
      assume "w = takeWhile (\<lambda>c. \<not> isspace c) v"
      with False h show ?thesis by (cases v) auto
    next
      assume "w \<in> set (split_ws (dropWhile (\<lambda>c. \<not> isspace c) v))"
      with "1.IH" [OF v_def False] show ?thesis by simp
    qed
  qed
qed

lemma split_ws_one_word:
  assumes "s \<noteq> []" "\<forall>c\<in>set s. \<not> isspace c"
  shows "split_ws s = [s]"
proof -
  from assms obtain c cs where s: "s = c # cs" by (cases s) auto
  with assms(2) have c: "\<not> isspace c" and cs: "\<forall>x\<in>set cs. \<not> isspace x" by auto
  from cs have tw: "takeWhile (\<lambda>c. \<not> isspace c) cs = cs"
    and dw: "dropWhile (\<lambda>c. \<not> isspace c) cs = []"
    by simp_all
  show ?thesis unfolding s split_ws_nonspace [OF c] tw dw by simp
qed

lemma join_hd:
  assumes "ws \<noteq> []" "hd ws \<noteq> []"
  shows "join sep ws \<noteq> [] \<and> hd (join sep ws) = hd (hd ws)"
proof (cases ws)
  case Nil
  with assms show ?thesis by simp
next
  case (Cons w vs)
  with assms show ?thesis by (cases vs) auto
qed

lemma set_last_n: "set (last_n n xs) \<subseteq> set xs"
  by (simp add: last_n_def set_drop_subset)

lemma overlap_hd: "overlap c \<noteq> [] \<Longrightarrow> \<not> isspace (hd (overlap c))"
proof -
  assume ne: "overlap c \<noteq> []"
  define ws where "ws = last_n 20 (split_ws c)"
  from ne have w: "ws \<noteq> []" by (auto simp: overlap_def ws_def)
  then have "hd ws \<in> set (split_ws c)" using set_last_n [of 20 "split_ws c"]
    by (auto simp: ws_def)
  then have h: "hd ws \<noteq> [] \<and> \<not> isspace (hd (hd ws))" by (rule split_ws_word)
  with w join_hd [of ws "[space]"] show ?thesis by (simp add: overlap_def ws_def)
qed

lemma trimmed_seed: "trimmed s \<Longrightarrow> trimmed (overlap c @ [dot, space] @ s)"
  using overlap_hd [of c] by (cases "overlap c = []") (auto simp: trimmed_def)

lemma trimmed_append: "trimmed c \<Longrightarrow> trimmed s \<Longrightarrow> trimmed (c @ [dot, space] @ s)"
  by (auto simp: trimmed_def)

subsection \<open>The loop, seen on the buffers alone\<close>

lemma index_chunks_Nil [simp]: "index_chunks md [] = []"
  by (simp add: index_chunks_def)

lemma length_index_chunks [simp]: "length (index_chunks md bs) = length bs"
  by (simp add: index_chunks_def)

lemma content_index_chunks [simp]: "map content (index_chunks md bs) = bs"
  by (simp add: index_chunks_def enumerate_eq_zip map_nth comp_def split_beta)

lemma index_chunks_nth:
  "i < length bs \<Longrightarrow>
   index_chunks md bs ! i =
     \<lparr>content = bs ! i, metadata = AList.update ''chunk_index'' (PyInt (int i)) md\<rparr>"
  by (simp add: index_chunks_def nth_enumerate_eq)

lemma index_chunks_snoc:
  "index_chunks md (bs @ [b]) =
     index_chunks md bs @
       [\<lparr>content = b, metadata = AList.update ''chunk_index'' (PyInt (int (length bs))) md\<rparr>]"
  by (simp add: index_chunks_def enumerate_append_eq)

lemma buf_loop_Nil [simp]: "buf_loop n st [] = st"
  by (simp add: buf_loop_def)

lemma buf_loop_Cons [simp]: "buf_loop n st (s # ss) = buf_loop n (buf_step n st s) ss"
  by (simp add: buf_loop_def)

lemma buf_loop_snoc: "buf_loop n st (ss @ [s]) = buf_step n (buf_loop n st ss) s"
  by (simp add: buf_loop_def)

lemma buf_step_trimmed:
  assumes "clean s" "cur = [] \<or> trimmed cur" "buf_step n (out, cur) s = (out', cur')"
  shows "trimmed cur'"
  using assms trimmed_seed [of s cur] trimmed_append [of cur s]
  by (auto simp: clean_def split: if_splits)

lemma chunk_step_buffers:
  assumes "cur = [] \<or> trimmed cur"
  shows "chunk_step self md (index_chunks md out, cur, length cur) s =
     (case buf_step (chunk_size self) (out, cur) s of
        (out', cur') \<Rightarrow> (index_chunks md out', cur', length cur'))"
  using assms by (auto simp: Let_def mk_chunk_def index_chunks_snoc strip_trimmed)

lemma chunk_loop_buffers:
  assumes "\<forall>s\<in>set ss. clean s" "cur = [] \<or> trimmed cur"
  shows "chunk_loop self md (index_chunks md out, cur, length cur) ss =
     (case buf_loop (chunk_size self) (out, cur) ss of
        (out', cur') \<Rightarrow> (index_chunks md out', cur', length cur'))"
  using assms
proof (induction ss arbitrary: out cur)
  case Nil
  show ?case by simp
next
  case (Cons s ss)
  obtain out' cur' where st: "buf_step (chunk_size self) (out, cur) s = (out', cur')"
    by (cases "buf_step (chunk_size self) (out, cur) s") auto
  from Cons.prems have "clean s" by simp
  then have t: "trimmed cur'" using Cons.prems(2) st by (rule buf_step_trimmed)
  have "chunk_step self md (index_chunks md out, cur, length cur) s =
          (index_chunks md out', cur', length cur')"
    using chunk_step_buffers [OF Cons.prems(2), of self md out s] st by simp
  moreover have "chunk_loop self md (index_chunks md out', cur', length cur') ss =
     (case buf_loop (chunk_size self) (out', cur') ss of
        (c, b) \<Rightarrow> (index_chunks md c, b, length b))"
    using Cons.IH [of cur' out'] Cons.prems(1) t by simp
  ultimately show ?case using st by simp
qed

text \<open>What the buffers look like after the loop over clean sentences.\<close>

lemma buf_loop_trimmed:
  assumes "\<forall>s\<in>set ss. clean s" "buf_loop n ([], []) ss = (out, cur)"
  shows "(ss = [] \<and> out = [] \<and> cur = []) \<or>
         (ss \<noteq> [] \<and> trimmed cur \<and> (\<forall>b\<in>set out. trimmed b))"
  using assms
proof (induction ss arbitrary: out cur rule: rev_induct)
  case Nil
  then show ?case by simp
next
  case (snoc s ss)
  obtain c0 b0 where st: "buf_loop n ([], []) ss = (c0, b0)"
    by (cases "buf_loop n ([], []) ss") auto
  from snoc.prems have cl: "clean s" and cls: "\<forall>s\<in>set ss. clean s" by simp_all
  from snoc.IH [OF cls st]
  have ih: "(c0 = [] \<and> b0 = []) \<or> (trimmed b0 \<and> (\<forall>b\<in>set c0. trimmed b))" by auto
  from snoc.prems(2) st have step: "buf_step n (c0, b0) s = (out, cur)"
    by (simp add: buf_loop_snoc)
  have "b0 = [] \<or> trimmed b0" using ih by auto
  with cl have "trimmed cur" using step by (rule buf_step_trimmed)
  moreover have "\<forall>b\<in>set out. trimmed b"
    using step ih by (auto split: if_splits)
  ultimately show ?case by simp
qed

lemma create_chunks_buffers:
  "create_chunks self text md =
     (if sentences text = [] then []
      else index_chunks md (buffers (chunk_size self) (sentences text)))"
proof -
  let ?ss = "sentences text"
  have cl: "\<forall>s\<in>set ?ss. clean s" using sentences_clean by blast
  obtain out cur where st: "buf_loop (chunk_size self) ([], []) ?ss = (out, cur)"
    by (cases "buf_loop (chunk_size self) ([], []) ?ss") auto
  have "chunk_loop self md (index_chunks md [], [], length ([]::pystr)) ?ss =
           (index_chunks md out, cur, length cur)"
    using chunk_loop_buffers [OF cl, of "[]" self md "[]"] st by simp
  then have loop: "chunk_loop self md ([], [], 0) ?ss = (index_chunks md out, cur, length cur)"
    by simp
  from buf_loop_trimmed [OF cl st] show ?thesis
  proof
    assume "?ss = [] \<and> out = [] \<and> cur = []"
    then show ?thesis using loop by (simp add: create_chunks_def)
  next
    assume a: "?ss \<noteq> [] \<and> trimmed cur \<and> (\<forall>b\<in>set out. trimmed b)"
    then have "strip cur = cur" "cur \<noteq> []" by (simp_all add: strip_trimmed trimmed_def)
    then show ?thesis using loop a st
      by (simp add: create_chunks_def mk_chunk_def buffers_def index_chunks_snoc)
  qed
qed

section \<open>Properties of the chunker\<close>

lemma buffers_trimmed:
  assumes "\<forall>s\<in>set ss. clean s" "ss \<noteq> []"
  shows "\<forall>b\<in>set (buffers n ss). trimmed b"
proof -
  obtain out cur where st: "buf_loop n ([], []) ss = (out, cur)"
    by (cases "buf_loop n ([], []) ss") auto
  from buf_loop_trimmed [OF assms(1) st] assms(2) st show ?thesis
    by (auto simp: buffers_def)
qed

lemma contents_create_chunks:
  "map content (create_chunks self text md) =
     (if sentences text = [] then [] else buffers (chunk_size self) (sentences text))"
  by (simp add: create_chunks_buffers)

lemma create_chunks_trimmed:
  assumes "c \<in> set (create_chunks self text md)"
  shows "trimmed (content c)"
proof -
  from assms have ne: "sentences text \<noteq> []"
    by (auto simp: create_chunks_buffers split: if_splits)
  from assms have "content c \<in> set (map content (create_chunks self text md))" by simp
  then have "content c \<in> set (buffers (chunk_size self) (sentences text))"
    using ne by (simp only: contents_create_chunks if_False)
  moreover have "\<forall>s\<in>set (sentences text). clean s" using sentences_clean by blast
  ultimately show ?thesis using buffers_trimmed ne by blast
qed

text \<open>
  C8: every chunk emitted by \<open>create_chunks\<close> has content that is not empty after
  trimming, and \<open>create_chunks\<close> of the empty string returns the empty sequence.
\<close>

theorem chunks_not_blank:
  "(\<forall>c\<in>set (create_chunks self text md). strip (content c) \<noteq> []) \<and>
   create_chunks self [] md = []"
proof
  show "\<forall>c\<in>set (create_chunks self text md). strip (content c) \<noteq> []"
  proof
    fix c assume "c \<in> set (create_chunks self text md)"
    then have "trimmed (content c)" by (rule create_chunks_trimmed)
    then show "strip (content c) \<noteq> []" by (simp add: strip_trimmed trimmed_def)
  qed
next
  show "create_chunks self [] md = []" by (simp add: create_chunks_buffers)
qed

theorem chunks_not_blank_witness:
  "create_chunks init (str ''Hi. Bye'') [] =
     [\<lparr>content = str ''Hi. Bye'', metadata = [(''chunk_index'', PyInt 0)]\<rparr>] \<and>
   strip (str ''Hi. Bye'') \<noteq> [] \<and> create_chunks init [] [] = []"
  using chunks_not_blank [of init "str ''Hi. Bye''" "[]"]
  by (simp add: b_txt_chunks)

subsection \<open>Each buffer starts with the overlap seed of the one before\<close>

lemma chained_seed:
  assumes "chained (B @ [c])"
  shows "chained ((B @ [c]) @ [overlap c @ [dot, space] @ s])"
  unfolding chained_def
proof (intro allI impI)
  fix i assume i: "Suc i < length ((B @ [c]) @ [overlap c @ [dot, space] @ s])"
  show "prefix (overlap (((B @ [c]) @ [overlap c @ [dot, space] @ s]) ! i) @ [dot, space])
          (((B @ [c]) @ [overlap c @ [dot, space] @ s]) ! Suc i)"
  proof (cases "Suc i < length (B @ [c])")
    case True
    then have "((B @ [c]) @ [overlap c @ [dot, space] @ s]) ! i = (B @ [c]) ! i"
      "((B @ [c]) @ [overlap c @ [dot, space] @ s]) ! Suc i = (B @ [c]) ! Suc i"
      by (simp_all add: nth_append)
    with assms True show ?thesis by (simp add: chained_def)
  next
    case False
    with i have e: "i = length B" by simp
    have "((B @ [c]) @ [overlap c @ [dot, space] @ s]) ! i = c"
      using e by (simp add: nth_append)
    moreover have "((B @ [c]) @ [overlap c @ [dot, space] @ s]) ! Suc i =
        overlap c @ [dot, space] @ s"
      using e by (simp add: nth_append)
    ultimately show ?thesis by simp
  qed
qed

lemma chained_extend:
  assumes "chained (B @ [c])"
  shows "chained (B @ [c @ x])"
  unfolding chained_def
proof (intro allI impI)
  fix i assume i: "Suc i < length (B @ [c @ x])"
  then have l: "Suc i < length (B @ [c])" by simp
  with assms have p: "prefix (overlap ((B @ [c]) ! i) @ [dot, space]) ((B @ [c]) ! Suc i)"
    by (simp add: chained_def)
  from i have bi: "(B @ [c @ x]) ! i = (B @ [c]) ! i" by (simp add: nth_append)
  show "prefix (overlap ((B @ [c @ x]) ! i) @ [dot, space]) ((B @ [c @ x]) ! Suc i)"
  proof (cases "Suc i < length B")
    case True
    then have "(B @ [c @ x]) ! Suc i = (B @ [c]) ! Suc i" by (simp add: nth_append)
    with p bi show ?thesis by simp
  next
    case False
    with i have e: "Suc i = length B" by simp
    then have "(B @ [c @ x]) ! Suc i = c @ x" "(B @ [c]) ! Suc i = c" by simp_all
    with p bi show ?thesis by (simp add: prefix_prefix)
  qed
qed

lemma buf_step_cases:
  assumes "buf_step n (out, cur) s = (out', cur')"
  shows "(cur \<noteq> [] \<and> n < length cur + length s \<and> out' = out @ [cur] \<and>
            cur' = overlap cur @ [dot, space] @ s) \<or>
         (cur \<noteq> [] \<and> length cur + length s \<le> n \<and> out' = out \<and>
            cur' = cur @ [dot, space] @ s) \<or>
         (cur = [] \<and> out' = out \<and> cur' = s)"
  using assms by (auto split: if_splits)

lemma buf_loop_chained:
  assumes "buf_loop n ([], []) ss = (out, cur)"
  shows "chained (out @ [cur])"
  using assms
proof (induction ss arbitrary: out cur rule: rev_induct)
  case Nil
  then show ?case by (simp add: chained_def)
next
  case (snoc s ss)
  obtain o0 c0 where st: "buf_loop n ([], []) ss = (o0, c0)"
    by (cases "buf_loop n ([], []) ss") auto
  from snoc.IH [OF st] have ih: "chained (o0 @ [c0])" .
  from snoc.prems st have step: "buf_step n (o0, c0) s = (out, cur)"
    by (simp add: buf_loop_snoc)
  from buf_step_cases [OF step] show ?case
  proof (elim disjE conjE)
    assume "out = o0 @ [c0]" "cur = overlap c0 @ [dot, space] @ s"
    then show ?thesis using chained_seed [OF ih, of s] by simp
  next
    assume "out = o0" "cur = c0 @ [dot, space] @ s"
    then show ?thesis using chained_extend [OF ih, of "[dot, space] @ s"] by simp
  next
    assume "c0 = []" "out = o0" "cur = s"
    then show ?thesis using chained_extend [OF ih, of s] by simp
  qed
qed

lemma buffers_chained: "chained (buffers n ss)"
proof -
  obtain out cur where st: "buf_loop n ([], []) ss = (out, cur)"
    by (cases "buf_loop n ([], []) ss") auto
  then show ?thesis using buf_loop_chained [OF st] by (simp add: buffers_def)
qed

lemma content_nth:
  "i < length (create_chunks self text md) \<Longrightarrow>
   content (create_chunks self text md ! i) = buffers (chunk_size self) (sentences text) ! i"
  by (auto simp: create_chunks_buffers index_chunks_nth split: if_splits)

lemma length_create_chunks:
  "length (create_chunks self text md) =
     (if sentences text = [] then 0 else length (buffers (chunk_size self) (sentences text)))"
  by (simp add: create_chunks_buffers)

text \<open>
  C3: when \<open>create_chunks\<close> emits more than one chunk, every chunk but the first begins
  with the last 20 whitespace-delimited words of the content of the chunk before it, or
  with all its words when it has fewer, joined by single spaces.
\<close>

theorem overlap_invariant:
  assumes "0 < i" "i < length (create_chunks self text md)"
  shows "prefix
     (join [space]
        (drop (length (split_ws (content (create_chunks self text md ! (i - 1)))) - 20)
           (split_ws (content (create_chunks self text md ! (i - 1))))))
     (content (create_chunks self text md ! i))"
proof -
  let ?B = "buffers (chunk_size self) (sentences text)"
  from assms obtain j where j: "i = Suc j" by (cases i) auto
  from assms(2) have ne: "sentences text \<noteq> []" and l: "i < length ?B"
    by (auto simp: length_create_chunks split: if_splits)
  have "prefix (overlap (?B ! j) @ [dot, space]) (?B ! Suc j)"
    using buffers_chained [of "chunk_size self" "sentences text"] l j
    by (simp add: chained_def)
  then have "prefix (overlap (?B ! j)) (?B ! Suc j)"
    by (rule append_prefixD)
  then have "prefix (join [space] (drop (length (split_ws (?B ! j)) - 20) (split_ws (?B ! j))))
      (?B ! Suc j)"
    by (simp add: overlap_def last_n_def)
  moreover have "content (create_chunks self text md ! j) = ?B ! j"
    using assms(2) j by (simp add: content_nth)
  moreover have "content (create_chunks self text md ! Suc j) = ?B ! Suc j"
    using assms(2) j by (simp add: content_nth)
  ultimately show ?thesis using j by simp
qed

lemma sentences_three: "sentences (str ''Hi. Bye. Now'') = [str ''Hi'', str ''Bye'', str ''Now'']"
  by (simp add: str_def sentences_def strip_def isspace_def dot_def)

lemma overlap_demo: "overlap (str ''Hi. Bye'') = str ''Hi. Bye''"
  by (simp add: str_def overlap_def split_ws_nonspace split_ws_space isspace_def last_n_def space_def)

lemma contents_three:
  "map content (create_chunks small (str ''Hi. Bye. Now'') md) =
     [str ''Hi. Bye'', str ''Hi. Bye. Now'']"
proof -
  have "buf_loop 5 ([], []) [str ''Hi'', str ''Bye'', str ''Now''] =
      ([str ''Hi. Bye''], overlap (str ''Hi. Bye'') @ [dot, space] @ str ''Now'')"
    by (simp add: str_def dot_def space_def)
  then have "buffers 5 [str ''Hi'', str ''Bye'', str ''Now''] =
      [str ''Hi. Bye'', str ''Hi. Bye. Now'']"
    by (simp add: buffers_def overlap_demo) (simp add: str_def dot_def space_def)
  then show ?thesis
    by (simp add: contents_create_chunks sentences_three small_def init_def)
qed

lemma sentences_letters:
  "sentences letters = [str ''a b c d e f g h i j k l m n o p q r s t u v w x y'', str ''z'']"
  by (simp add: letters_def str_def sentences_def strip_def isspace_def dot_def)

lemma split_ws_letters:
  "split_ws (str ''a b c d e f g h i j k l m n o p q r s t u v w x y'') =
     map str [''a'', ''b'', ''c'', ''d'', ''e'', ''f'', ''g'', ''h'', ''i'', ''j'', ''k'', ''l'', ''m'',
       ''n'', ''o'', ''p'', ''q'', ''r'', ''s'', ''t'', ''u'', ''v'', ''w'', ''x'', ''y'']"
  by (simp add: str_def split_ws_nonspace split_ws_space isspace_def)

lemma overlap_letters:
  "overlap (str ''a b c d e f g h i j k l m n o p q r s t u v w x y'') =
     str ''f g h i j k l m n o p q r s t u v w x y''"
  by (simp add: overlap_def split_ws_letters last_n_def) (simp add: str_def space_def)

lemma contents_letters:
  "map content (create_chunks small letters md) =
     [str ''a b c d e f g h i j k l m n o p q r s t u v w x y'',
      str ''f g h i j k l m n o p q r s t u v w x y. z'']"
proof -
  have "buf_loop 5 ([], [])
      [str ''a b c d e f g h i j k l m n o p q r s t u v w x y'', str ''z''] =
      ([str ''a b c d e f g h i j k l m n o p q r s t u v w x y''],
       overlap (str ''a b c d e f g h i j k l m n o p q r s t u v w x y'') @ [dot, space] @ str ''z'')"
    by (simp add: str_def)
  then have "buffers 5 [str ''a b c d e f g h i j k l m n o p q r s t u v w x y'', str ''z''] =
     [str ''a b c d e f g h i j k l m n o p q r s t u v w x y'',
      str ''f g h i j k l m n o p q r s t u v w x y. z'']"
    by (simp add: buffers_def overlap_letters) (simp add: str_def dot_def space_def)
  then show ?thesis
    by (simp add: contents_create_chunks sentences_letters small_def init_def)
qed

theorem overlap_invariant_witness:
  "(0::nat) < 1 \<and> 1 < length (create_chunks small letters []) \<and>
   content (create_chunks small letters [] ! 0) =
     str ''a b c d e f g h i j k l m n o p q r s t u v w x y'' \<and>
   length (split_ws (content (create_chunks small letters [] ! 0))) = 25 \<and>
   join [space] (drop (25 - 20) (split_ws (content (create_chunks small letters [] ! 0)))) =
     str ''f g h i j k l m n o p q r s t u v w x y'' \<and>
   content (create_chunks small letters [] ! 1) =
     str ''f g h i j k l m n o p q r s t u v w x y. z'' \<and>
   prefix (str ''f g h i j k l m n o p q r s t u v w x y'')
     (content (create_chunks small letters [] ! 1))"
proof -
  have c: "map content (create_chunks small letters []) =
     [str ''a b c d e f g h i j k l m n o p q r s t u v w x y'',
      str ''f g h i j k l m n o p q r s t u v w x y. z'']"
    by (rule contents_letters)
  then have l: "length (create_chunks small letters []) = 2"
    using length_map [of content "create_chunks small letters []"] by simp
  then have i: "1 < length (create_chunks small letters [])" by simp
  have n0: "content (create_chunks small letters [] ! 0) =
      str ''a b c d e f g h i j k l m n o p q r s t u v w x y''"
    using c l nth_map [of 0 "create_chunks small letters []" content] by simp
  have n1: "content (create_chunks small letters [] ! 1) =
      str ''f g h i j k l m n o p q r s t u v w x y. z''"
    using c l nth_map [of 1 "create_chunks small letters []" content] by simp
  have w: "length (split_ws (content (create_chunks small letters [] ! 0))) = 25"
    unfolding n0 split_ws_letters by simp
  have o: "join [space] (drop (25 - 20) (split_ws (content (create_chunks small letters [] ! 0)))) =
     str ''f g h i j k l m n o p q r s t u v w x y''"
    using overlap_letters unfolding n0 by (simp add: overlap_def last_n_def split_ws_letters)
  from overlap_invariant [OF _ i] w o
  have "prefix (str ''f g h i j k l m n o p q r s t u v w x y'')
     (content (create_chunks small letters [] ! 1))" by simp
  with i n0 n1 w o show ?thesis by simp
qed

subsection \<open>Reconstruction of the sentence sequence\<close>

lemma portions_from_snoc:
  "portions_from prev (cs @ [c]) =
     portions_from prev cs @ [drop (length (overlap (last (prev # cs))) + 2) c]"
  by (induction cs arbitrary: prev) auto

lemma non_overlap_portions_snoc:
  "B \<noteq> [] \<Longrightarrow>
   non_overlap_portions (B @ [c]) =
     non_overlap_portions B @ [drop (length (overlap (last B)) + 2) c]"
  by (cases B) (auto simp: portions_from_snoc)

lemma non_overlap_portions_extend:
  assumes "chained (B @ [c])"
  shows "\<exists>P p. non_overlap_portions (B @ [c]) = P @ [p] \<and>
               non_overlap_portions (B @ [c @ x]) = P @ [p @ x]"
proof (cases "B = []")
  case True
  then show ?thesis by simp
next
  case False
  define k where "k = length (overlap (last B)) + 2"
  have i: "Suc (length B - 1) < length (B @ [c])" "(B @ [c]) ! (length B - 1) = last B"
    "(B @ [c]) ! Suc (length B - 1) = c"
    using False by (simp_all add: nth_append last_conv_nth)
  from assms i have "prefix (overlap (last B) @ [dot, space]) c"
    unfolding chained_def by metis
  then have "k \<le> length c"
    using prefix_length_le [of "overlap (last B) @ [dot, space]" c] by (simp add: k_def)
  then have "drop k (c @ x) = drop k c @ x" by simp
  then show ?thesis using False by (simp add: non_overlap_portions_snoc k_def)
qed

lemma concat_sentences_extend:
  assumes "non_overlap_portions B = P @ [p]" "non_overlap_portions B' = P @ [p @ [dot, space] @ s]"
    "clean s"
  shows "concat (map sentences (non_overlap_portions B')) =
         concat (map sentences (non_overlap_portions B)) @ [s]"
  using assms by (simp add: sentences_snoc [simplified])

lemma buf_loop_portions:
  assumes "\<forall>s\<in>set ss. clean s" "buf_loop n ([], []) ss = (out, cur)"
  shows "concat (map sentences (non_overlap_portions (out @ [cur]))) = ss"
  using assms
proof (induction ss arbitrary: out cur rule: rev_induct)
  case Nil
  then show ?case by simp
next
  case (snoc s ss)
  obtain o0 c0 where st: "buf_loop n ([], []) ss = (o0, c0)"
    by (cases "buf_loop n ([], []) ss") auto
  from snoc.prems have cl: "clean s" and cls: "\<forall>s\<in>set ss. clean s" by simp_all
  from snoc.IH [OF cls st]
  have ih: "concat (map sentences (non_overlap_portions (o0 @ [c0]))) = ss" .
  have ch: "chained (o0 @ [c0])" using st by (rule buf_loop_chained)
  from snoc.prems(2) st have step: "buf_step n (o0, c0) s = (out, cur)"
    by (simp add: buf_loop_snoc)
  from buf_step_cases [OF step] show ?case
  proof (elim disjE conjE)
    assume a: "out = o0 @ [c0]" "cur = overlap c0 @ [dot, space] @ s"
    have "non_overlap_portions ((o0 @ [c0]) @ [cur]) =
        non_overlap_portions (o0 @ [c0]) @ [drop (length (overlap (last (o0 @ [c0]))) + 2) cur]"
      by (rule non_overlap_portions_snoc) simp
    then have "non_overlap_portions ((o0 @ [c0]) @ [cur]) = non_overlap_portions (o0 @ [c0]) @ [s]"
      using a(2) by simp
    then show ?thesis using a(1) ih cl by (simp add: sentences_single)
  next
    assume a: "out = o0" "cur = c0 @ [dot, space] @ s"
    from non_overlap_portions_extend [OF ch, of "[dot, space] @ s"]
    obtain P p where "non_overlap_portions (o0 @ [c0]) = P @ [p]"
      "non_overlap_portions (o0 @ [c0 @ [dot, space] @ s]) = P @ [p @ [dot, space] @ s]"
      by auto
    from concat_sentences_extend [OF this cl] show ?thesis using a ih by simp
  next
    assume a: "c0 = []" "out = o0" "cur = s"
    from buf_loop_trimmed [OF cls st] a(1) have "ss = []" "o0 = []"
      by (auto simp: trimmed_def)
    then show ?thesis using a cl by (simp add: sentences_single)
  qed
qed

text \<open>
  C2: taking the non-overlap portions of the chunks emitted by \<open>create_chunks\<close> in
  emission order, cutting each at its periods and trimming the pieces gives back the
  sequence of trimmed non-empty sentence units of the input text, each unit once and in
  order. The delimiter \<open>'. '\<close> and the repeated overlap words are all that differs.
\<close>

theorem chunks_reconstruct_sentences:
  "concat (map sentences (non_overlap_portions (map content (create_chunks self text md)))) =
     sentences text"
proof (cases "sentences text = []")
  case True
  then show ?thesis by (simp add: contents_create_chunks)
next
  case False
  obtain out cur where st: "buf_loop (chunk_size self) ([], []) (sentences text) = (out, cur)"
    by (cases "buf_loop (chunk_size self) ([], []) (sentences text)") auto
  have cl: "\<forall>s\<in>set (sentences text). clean s" using sentences_clean by blast
  from buf_loop_portions [OF cl st] False st show ?thesis
    by (simp add: contents_create_chunks buffers_def)
qed

theorem chunks_reconstruct_sentences_witness:
  "non_overlap_portions (map content (create_chunks small (str ''Hi. Bye. Now'') [])) =
     [str ''Hi. Bye'', str ''Now''] \<and>
   concat (map sentences [str ''Hi. Bye'', str ''Now'']) = [str ''Hi'', str ''Bye'', str ''Now''] \<and>
   sentences (str ''Hi. Bye. Now'') = [str ''Hi'', str ''Bye'', str ''Now'']"
proof -
  have p: "non_overlap_portions (map content (create_chunks small (str ''Hi. Bye. Now'') [])) =
     [str ''Hi. Bye'', str ''Now'']"
    by (simp add: contents_three overlap_demo) (simp add: str_def)
  with chunks_reconstruct_sentences [of small "str ''Hi. Bye. Now''" "[]"] sentences_three
  show ?thesis by simp
qed

subsection \<open>The size of a buffer\<close>

lemma nth_snoc_left: "j < length X \<Longrightarrow> (X @ [y]) ! j = X ! j"
  by (simp add: nth_append)

lemma nth_same_front: "j < length X \<Longrightarrow> (X @ [x]) ! j = (X @ [y]) ! j"
  by (simp add: nth_append)

lemma fits_seed:
  assumes "fits n ss (B @ [c])"
  shows "fits n (ss @ [s]) ((B @ [c]) @ [overlap c @ [dot, space] @ s])"
  unfolding fits_def
proof (intro allI impI)
  let ?B = "(B @ [c]) @ [overlap c @ [dot, space] @ s]"
  fix i assume i: "i < length ?B"
  show "length (?B ! i) \<le> n + 2 \<or> (i = 0 \<and> ?B ! 0 \<in> set (ss @ [s])) \<or>
        (0 < i \<and> (\<exists>t\<in>set (ss @ [s]). ?B ! i = overlap (?B ! (i - 1)) @ [dot, space] @ t))"
  proof (cases "i < length (B @ [c])")
    case True
    then have "i - 1 < length (B @ [c])" "0 < length (B @ [c])" by simp_all
    with True have e: "?B ! i = (B @ [c]) ! i" "?B ! (i - 1) = (B @ [c]) ! (i - 1)"
      "?B ! 0 = (B @ [c]) ! 0"
      by (simp_all only: nth_snoc_left)
    from assms True have "length ((B @ [c]) ! i) \<le> n + 2 \<or>
        (i = 0 \<and> (B @ [c]) ! 0 \<in> set ss) \<or>
        (0 < i \<and> (\<exists>t\<in>set ss. (B @ [c]) ! i = overlap ((B @ [c]) ! (i - 1)) @ [dot, space] @ t))"
      unfolding fits_def by blast
    then show ?thesis unfolding e by auto
  next
    case False
    with i have e: "i = Suc (length B)" by simp
    then have "?B ! i = overlap c @ [dot, space] @ s" "?B ! (i - 1) = c"
      by (simp_all add: nth_append)
    then show ?thesis using e by simp
  qed
qed

lemma fits_append:
  assumes "fits n ss (B @ [c])" "length c + length s \<le> n"
  shows "fits n (ss @ [s]) (B @ [c @ [dot, space] @ s])"
  unfolding fits_def
proof (intro allI impI)
  let ?B = "B @ [c @ [dot, space] @ s]"
  fix i assume i: "i < length ?B"
  show "length (?B ! i) \<le> n + 2 \<or> (i = 0 \<and> ?B ! 0 \<in> set (ss @ [s])) \<or>
        (0 < i \<and> (\<exists>t\<in>set (ss @ [s]). ?B ! i = overlap (?B ! (i - 1)) @ [dot, space] @ t))"
  proof (cases "i < length B")
    case True
    then have "i - 1 < length B" by simp
    with True have e: "?B ! i = (B @ [c]) ! i" "?B ! (i - 1) = (B @ [c]) ! (i - 1)"
      by (simp_all only: nth_same_front [of _ B "c @ [dot, space] @ s" c])
    from assms(1) True have "length ((B @ [c]) ! i) \<le> n + 2 \<or>
        (i = 0 \<and> (B @ [c]) ! 0 \<in> set ss) \<or>
        (0 < i \<and> (\<exists>t\<in>set ss. (B @ [c]) ! i = overlap ((B @ [c]) ! (i - 1)) @ [dot, space] @ t))"
      unfolding fits_def by simp
    then show ?thesis using e by auto
  next
    case False
    with i have "i = length B" by simp
    then have "?B ! i = c @ [dot, space] @ s" by simp
    then show ?thesis using assms(2) by simp
  qed
qed

lemma buf_loop_fits:
  assumes "\<forall>s\<in>set ss. clean s" "buf_loop n ([], []) ss = (out, cur)"
  shows "fits n ss (out @ [cur])"
  using assms
proof (induction ss arbitrary: out cur rule: rev_induct)
  case Nil
  then show ?case by (simp add: fits_def)
next
  case (snoc s ss)
  obtain o0 c0 where st: "buf_loop n ([], []) ss = (o0, c0)"
    by (cases "buf_loop n ([], []) ss") auto
  from snoc.prems have cls: "\<forall>s\<in>set ss. clean s" by simp
  from snoc.IH [OF cls st] have ih: "fits n ss (o0 @ [c0])" .
  from snoc.prems(2) st have step: "buf_step n (o0, c0) s = (out, cur)"
    by (simp add: buf_loop_snoc)
  from buf_step_cases [OF step] show ?case
  proof (elim disjE conjE)
    assume "out = o0 @ [c0]" "cur = overlap c0 @ [dot, space] @ s"
    then show ?thesis using fits_seed [OF ih, of s] by simp
  next
    assume "length c0 + length s \<le> n" "out = o0" "cur = c0 @ [dot, space] @ s"
    then show ?thesis using fits_append [OF ih, of s] by simp
  next
    assume a: "c0 = []" "out = o0" "cur = s"
    from buf_loop_trimmed [OF cls st] a(1) have "ss = []" "o0 = []"
      by (auto simp: trimmed_def)
    then show ?thesis using a by (simp add: fits_def)
  qed
qed

lemma buffers_fits: "\<forall>s\<in>set ss. clean s \<Longrightarrow> fits n ss (buffers n ss)"
proof -
  assume cl: "\<forall>s\<in>set ss. clean s"
  obtain out cur where st: "buf_loop n ([], []) ss = (out, cur)"
    by (cases "buf_loop n ([], []) ss") auto
  from buf_loop_fits [OF cl st] st show ?thesis by (simp add: buffers_def)
qed

text \<open>
  C1 (amended): every chunk emitted by \<open>create_chunks\<close> has content of at most
  \<open>chunk_size + 2\<close> characters (the size test leaves the two characters of the joining
  \<open>'. '\<close> out), except when the chunk is the first one and a single sentence unit, or
  is the overlap seed of the chunk before it followed by \<open>'. '\<close> and a single sentence
  unit; such a chunk is emitted whole, whatever its length.
\<close>

theorem chunk_length_bound:
  assumes "i < length (create_chunks self text md)"
  shows "length (content (create_chunks self text md ! i)) \<le> chunk_size self + 2 \<or>
     (i = 0 \<and> content (create_chunks self text md ! 0) \<in> set (sentences text)) \<or>
     (0 < i \<and> (\<exists>s\<in>set (sentences text).
        content (create_chunks self text md ! i) =
          overlap (content (create_chunks self text md ! (i - 1))) @ [dot, space] @ s))"
proof -
  let ?B = "buffers (chunk_size self) (sentences text)"
  from assms have l: "i < length ?B"
    by (auto simp: length_create_chunks split: if_splits)
  have c: "\<And>j. j \<le> i \<Longrightarrow> content (create_chunks self text md ! j) = ?B ! j"
    using assms by (simp add: content_nth)
  have "fits (chunk_size self) (sentences text) ?B"
    using sentences_clean by (intro buffers_fits) blast
  with l have "length (?B ! i) \<le> chunk_size self + 2 \<or>
        (i = 0 \<and> ?B ! 0 \<in> set (sentences text)) \<or>
        (0 < i \<and> (\<exists>s\<in>set (sentences text). ?B ! i = overlap (?B ! (i - 1)) @ [dot, space] @ s))"
    unfolding fits_def by blast
  then show ?thesis using c [of i] c [of 0] c [of "i - 1"] by auto
qed

theorem chunk_length_bound_witness:
  "0 < length (create_chunks small (str ''Hi. Bye. Now'') []) \<and>
   length (content (create_chunks small (str ''Hi. Bye. Now'') [] ! 0)) = 7 \<and>
   chunk_size small + 2 = 7 \<and>
   content (create_chunks small (str ''Hi. Bye. Now'') [] ! 0) \<notin> set (sentences (str ''Hi. Bye. Now''))"
proof -
  have c: "map content (create_chunks small (str ''Hi. Bye. Now'') []) =
      [str ''Hi. Bye'', str ''Hi. Bye. Now'']"
    by (rule contents_three)
  then have l: "length (create_chunks small (str ''Hi. Bye. Now'') []) = 2"
    using length_map [of content "create_chunks small (str ''Hi. Bye. Now'') []"] by simp
  then have i: "0 < length (create_chunks small (str ''Hi. Bye. Now'') [])" by simp
  have n0: "content (create_chunks small (str ''Hi. Bye. Now'') [] ! 0) = str ''Hi. Bye''"
    using c l nth_map [of 0 "create_chunks small (str ''Hi. Bye. Now'') []" content] by simp
  have notin: "str ''Hi. Bye'' \<notin> set (sentences (str ''Hi. Bye. Now''))"
    by (simp add: sentences_three) (simp add: str_def)
  from chunk_length_bound [OF i] n0 notin
  have "length (str ''Hi. Bye'') \<le> chunk_size small + 2" by simp
  moreover have "length (str ''Hi. Bye'') = 7" "chunk_size small + 2 = 7"
    by (simp_all add: str_def small_def init_def)
  ultimately show ?thesis using i n0 notin by simp
qed

lemma clean_replicate: "0 < k \<Longrightarrow> clean (replicate k 98)"
  by (cases k) (auto simp: clean_def trimmed_def isspace_def dot_def last_replicate)

lemma clean_a: "clean [97]"
  by (simp add: clean_def trimmed_def isspace_def dot_def)

lemma sentences_a_dot: "0 < k \<Longrightarrow> sentences (str ''a.'' @ replicate k 98) = [[97], replicate k 98]"
proof -
  assume k: "0 < k"
  have "str ''a.'' @ replicate k 98 = [97] @ dot # replicate k 98"
    by (simp add: str_def dot_def)
  then show ?thesis
    using sentences_append_dot [of "[97]" "replicate k 98"]
    by (simp add: sentences_single clean_a clean_replicate k)
qed

lemma overlap_a: "overlap [97] = [97]"
  by (simp add: overlap_def split_ws_one_word isspace_def last_n_def)

lemma buffers_long_pair:
  "buffers 1000 [[97], replicate 999 98] = [[97, 46, 32] @ replicate 999 98]"
  by (simp add: buffers_def dot_def space_def)

lemma buffers_long_seed:
  "buffers 1000 [[97], replicate 1000 98] = [[97], [97, 46, 32] @ replicate 1000 98]"
  by (simp add: buffers_def overlap_a) (simp add: dot_def space_def)

lemma contents_long_pair:
  "map content (create_chunks init long_pair []) = [[97, 46, 32] @ replicate 999 98]"
  by (simp add: contents_create_chunks long_pair_def sentences_a_dot init_def buffers_long_pair)

lemma contents_long_seed:
  "map content (create_chunks init long_seed []) = [[97], [97, 46, 32] @ replicate 1000 98]"
  by (simp add: contents_create_chunks long_seed_def sentences_a_dot init_def buffers_long_seed)

text \<open>
  C1 (as stated): every chunk is at most \<open>chunk_size\<close> long unless it is a single
  sentence unit longer than that. With the default size of 1000, \<open>long_pair\<close> gives one
  chunk of 1002 characters holding two sentence units, and \<open>long_seed\<close> gives a second
  chunk of 1003 characters made of the seed \<open>a\<close>, the joint and the second unit.
\<close>

theorem chunk_size_counterexample:
  "length (create_chunks init long_pair []) = 1 \<and>
   chunk_size init < length (content (create_chunks init long_pair [] ! 0)) \<and>
   content (create_chunks init long_pair [] ! 0) \<notin> set (sentences long_pair) \<and>
   length (create_chunks init long_seed []) = 2 \<and>
   chunk_size init + 2 < length (content (create_chunks init long_seed [] ! 1)) \<and>
   content (create_chunks init long_seed [] ! 1) \<notin> set (sentences long_seed)"
proof -
  have l1: "length (create_chunks init long_pair []) = 1"
    using length_map [of content "create_chunks init long_pair []"]
    by (simp add: contents_long_pair)
  have c1: "content (create_chunks init long_pair [] ! 0) = [97, 46, 32] @ replicate 999 98"
    using nth_map [of 0 "create_chunks init long_pair []" content] l1
    by (simp add: contents_long_pair)
  have l2: "length (create_chunks init long_seed []) = 2"
    using length_map [of content "create_chunks init long_seed []"]
    by (simp add: contents_long_seed)
  have c2: "content (create_chunks init long_seed [] ! 1) = [97, 46, 32] @ replicate 1000 98"
    using nth_map [of 1 "create_chunks init long_seed []" content] l2
    by (simp add: contents_long_seed)
  have s1: "sentences long_pair = [[97], replicate 999 98]"
    by (simp add: long_pair_def sentences_a_dot)
  have s2: "sentences long_seed = [[97], replicate 1000 98]"
    by (simp add: long_seed_def sentences_a_dot)
  have n: "\<And>k. [97, 46, 32] @ replicate k 98 \<notin> set [[97], replicate k 98]"
  proof -
    fix k :: nat
    have "length ([97, 46, 32] @ replicate k (98::nat)) \<noteq> length (replicate k (98::nat))"
      by simp
    then have "[97, 46, 32] @ replicate k (98::nat) \<noteq> replicate k 98" by metis
    then show "[97, 46, 32] @ replicate k 98 \<notin> set [[97], replicate k 98]" by simp
  qed
  show ?thesis
    unfolding c1 c2 s1 s2 using l1 l2 n [of 999] n [of 1000] by (simp add: init_def)
qed

subsection \<open>Texts that fit in one chunk\<close>

lemma join_snoc: "ss \<noteq> [] \<Longrightarrow> join sep (ss @ [s]) = join sep ss @ sep @ s"
  by (induction sep ss rule: join.induct) auto

lemma join_nonempty: "ss \<noteq> [] \<Longrightarrow> \<forall>s\<in>set ss. s \<noteq> [] \<Longrightarrow> join sep ss \<noteq> []"
  by (induction sep ss rule: join.induct) auto

lemma sentences_five_units:
  "sentences five_units = [[97], [97], [97], [97], replicate 991 98]"
proof -
  have e: "five_units = [97] @ dot # ([97] @ dot # ([97] @ dot # ([97] @ dot # replicate 991 98)))"
    by (simp add: five_units_def str_def dot_def)
  show ?thesis
    unfolding e sentences_append_dot
    by (simp add: sentences_single clean_a clean_replicate)
qed

lemma buffers_five_units_length:
  "length (buffers 1000 [[97], [97], [97], [97], replicate 991 98]) = 2"
  by (simp add: buffers_def)

lemma join_single [simp]: "join sep [s] = s"
  by simp

lemma length_join_snoc:
  "ss \<noteq> [] \<Longrightarrow> length (join sep (ss @ [s])) = length (join sep ss) + length sep + length s"
  by (simp add: join_snoc)

lemma buf_step_out_grows:
  "buf_step n (out, cur) s = (out', cur') \<Longrightarrow> out \<noteq> [] \<Longrightarrow> out' \<noteq> []"
  by (auto split: if_splits)

text \<open>
  The loop closes no buffer exactly when there are at most one sentence or the joined
  sentences are at most two characters longer than the chunk size; the pending buffer
  is then the joined sentences.
\<close>

lemma buf_loop_no_close:
  assumes "\<forall>s\<in>set ss. clean s" "buf_loop n ([], []) ss = (out, cur)"
  shows "(out = [] \<longleftrightarrow> length ss \<le> 1 \<or> length (join [dot, space] ss) \<le> n + 2) \<and>
         (out = [] \<longrightarrow> cur = join [dot, space] ss)"
  using assms
proof (induction ss arbitrary: out cur rule: rev_induct)
  case Nil
  then show ?case by simp
next
  case (snoc s ss)
  obtain o0 c0 where st: "buf_loop n ([], []) ss = (o0, c0)"
    by (cases "buf_loop n ([], []) ss") auto
  from snoc.prems have cls: "\<forall>s\<in>set ss. clean s" by simp
  from snoc.IH [OF cls st]
  have ih1: "o0 = [] \<longleftrightarrow> length ss \<le> 1 \<or> length (join [dot, space] ss) \<le> n + 2"
    and ih2: "o0 = [] \<longrightarrow> c0 = join [dot, space] ss" by simp_all
  from snoc.prems(2) st have step: "buf_step n (o0, c0) s = (out, cur)"
    by (simp add: buf_loop_snoc)
  show ?case
  proof (cases "ss = []")
    case True
    with st have "o0 = []" "c0 = []" by simp_all
    with step True show ?thesis by simp
  next
    case False
    have ne: "\<forall>s\<in>set ss. s \<noteq> []" using cls by (auto simp: clean_def trimmed_def)
    with False have jne: "join [dot, space] ss \<noteq> []" by (rule join_nonempty)
    have jl: "length (join [dot, space] (ss @ [s])) = length (join [dot, space] ss) + 2 + length s"
      using False by (simp add: length_join_snoc)
    have l2: "\<not> length (ss @ [s]) \<le> 1" using False by (cases ss) auto
    show ?thesis
    proof (cases "o0 = []")
      case True
      with ih2 have c0: "c0 = join [dot, space] ss" by simp
      show ?thesis
      proof (cases "n < length c0 + length s")
        case True
        with step c0 jne have "out \<noteq> []" by auto
        moreover from True c0 jl have "\<not> length (join [dot, space] (ss @ [s])) \<le> n + 2" by simp
        ultimately show ?thesis using l2 by simp
      next
        case False
        with step c0 jne \<open>o0 = []\<close> have "out = []" "cur = c0 @ [dot, space] @ s" by auto
        moreover from False c0 jl have "length (join [dot, space] (ss @ [s])) \<le> n + 2" by simp
        moreover have "join [dot, space] (ss @ [s]) = c0 @ [dot, space] @ s"
          using \<open>ss \<noteq> []\<close> c0 by (simp add: join_snoc)
        ultimately show ?thesis by simp
      qed
    next
      case False
      with step have o: "out \<noteq> []" using buf_step_out_grows by blast
      from False ih1 have "\<not> length (join [dot, space] ss) \<le> n + 2" by simp
      with jl have "\<not> length (join [dot, space] (ss @ [s])) \<le> n + 2" by simp
      with o l2 show ?thesis by simp
    qed
  qed
qed

lemma length_buffers:
  "length (buffers n ss) = Suc (length (fst (buf_loop n ([], []) ss)))"
  by (simp add: buffers_def split_beta)

text \<open>
  C7 (amended): \<open>create_chunks\<close> produces exactly one chunk exactly for the input
  texts that have at least one sentence unit and either have a single unit or have units
  that, joined by \<open>'. '\<close>, are at most \<open>chunk_size + 2\<close> characters long; the content
  of that chunk is the joined units and its metadata has \<open>chunk_index\<close> equal to 0.
\<close>

theorem single_chunk:
  "(length (create_chunks self text md) = 1 \<longleftrightarrow>
      sentences text \<noteq> [] \<and>
      (length (sentences text) = 1 \<or>
       length (join [dot, space] (sentences text)) \<le> chunk_size self + 2)) \<and>
   (length (create_chunks self text md) = 1 \<longrightarrow>
      create_chunks self text md =
        [\<lparr>content = join [dot, space] (sentences text),
          metadata = AList.update ''chunk_index'' (PyInt 0) md\<rparr>] \<and>
      map_of (metadata (create_chunks self text md ! 0)) ''chunk_index'' = Some (PyInt 0))"
proof (cases "sentences text = []")
  case True
  then show ?thesis by (simp add: create_chunks_buffers)
next
  case False
  let ?ss = "sentences text"
  have cl: "\<forall>s\<in>set ?ss. clean s" using sentences_clean by blast
  obtain out cur where st: "buf_loop (chunk_size self) ([], []) ?ss = (out, cur)"
    by (cases "buf_loop (chunk_size self) ([], []) ?ss") auto
  from buf_loop_no_close [OF cl st]
  have a: "out = [] \<longleftrightarrow> length ?ss \<le> 1 \<or> length (join [dot, space] ?ss) \<le> chunk_size self + 2"
    and b: "out = [] \<longrightarrow> cur = join [dot, space] ?ss" by simp_all
  have len: "length (create_chunks self text md) = Suc (length out)"
    using False st by (simp add: length_create_chunks length_buffers)
  have one: "length ?ss \<le> 1 \<longleftrightarrow> length ?ss = 1"
    using False by (cases ?ss) auto
  have iff: "length (create_chunks self text md) = 1 \<longleftrightarrow>
      ?ss \<noteq> [] \<and> (length ?ss = 1 \<or> length (join [dot, space] ?ss) \<le> chunk_size self + 2)"
    using len a one False by simp
  have "length (create_chunks self text md) = 1 \<longrightarrow>
      create_chunks self text md =
        [\<lparr>content = join [dot, space] ?ss,
          metadata = AList.update ''chunk_index'' (PyInt 0) md\<rparr>]"
  proof
    assume "length (create_chunks self text md) = 1"
    with len have "out = []" by simp
    with b st have "buffers (chunk_size self) ?ss = [join [dot, space] ?ss]"
      by (simp add: buffers_def)
    then show "create_chunks self text md =
        [\<lparr>content = join [dot, space] ?ss,
          metadata = AList.update ''chunk_index'' (PyInt 0) md\<rparr>]"
      using False by (simp add: create_chunks_buffers index_chunks_def)
  qed
  then show ?thesis using iff by (auto simp: update_conv')
qed

lemma sentences_four_units:
  "sentences four_units = [[97], [97], [97], replicate 993 98]"
proof -
  have e: "four_units = [97] @ dot # ([97] @ dot # ([97] @ dot # replicate 993 98))"
    by (simp add: four_units_def str_def dot_def)
  show ?thesis
    unfolding e sentences_append_dot
    by (simp add: sentences_single clean_a clean_replicate)
qed

theorem single_chunk_witness:
  "length four_units < chunk_size init \<and>
   sentences four_units = [[97], [97], [97], replicate 993 98] \<and>
   length (join [dot, space] (sentences four_units)) = chunk_size init + 2 \<and>
   length (create_chunks init four_units []) = 1 \<and>
   map_of (metadata (create_chunks init four_units [] ! 0)) ''chunk_index'' = Some (PyInt 0)"
proof -
  have l: "length four_units < chunk_size init"
    by (simp add: four_units_def str_def init_def)
  have j: "length (join [dot, space] (sentences four_units)) = chunk_size init + 2"
    by (simp add: sentences_four_units init_def)
  have ne: "sentences four_units \<noteq> []" by (simp add: sentences_four_units)
  from single_chunk [of init four_units "[]"] j ne
  have "length (create_chunks init four_units []) = 1 \<and>
    map_of (metadata (create_chunks init four_units [] ! 0)) ''chunk_index'' = Some (PyInt 0)"
    by simp
  with l j sentences_four_units show ?thesis by simp
qed

text \<open>
  C7 (as stated): every text shorter than \<open>chunk_size\<close> gives exactly one chunk. A
  text of three periods has no sentence unit and gives no chunk; and \<open>five_units\<close>, 999
  characters long, gives two, since its units are joined by two characters in the buffer
  where the text had one.
\<close>

theorem short_text_counterexample:
  "length (str ''...'') < chunk_size init \<and> create_chunks init (str ''...'') [] = [] \<and>
   length five_units < chunk_size init \<and> length (create_chunks init five_units []) = 2"
proof -
  have "length (create_chunks init five_units []) = 2"
    by (simp add: length_create_chunks sentences_five_units init_def buffers_five_units_length)
  moreover have "sentences (str ''...'') = []"
    by (simp add: str_def sentences_def strip_def dot_def)
  then have "create_chunks init (str ''...'') [] = []"
    by (simp add: create_chunks_buffers)
  moreover have "length five_units < chunk_size init"
    by (simp add: five_units_def str_def init_def)
  ultimately show ?thesis by (simp add: init_def str_def)
qed

end
